theory Spec2Isabelle
  imports Main "HOL-Library.Word"
begin

unbundle bit_operations_syntax

section \<open>Backends and the store they live in\<close>

text \<open>
  The balancers hold \<^verbatim>\<open>[]*Backend\<close>: a slice of pointers. A pointer is an address
  (\<open>addr\<close>), the objects live in a store (\<open>heap\<close>), and a write through one pointer is
  seen through every copy of it. \<^verbatim>\<open>Backend.URL\<close> is kept as the text that
  \<^verbatim>\<open>URL.String()\<close> gives; the three \<^verbatim>\<open>int32\<close> fields are 32-bit words, read as
  signed numbers with \<open>sint\<close>.
\<close>

type_synonym addr = nat

record Backend =
  URL :: string
  Alive :: bool
  Connections :: "32 word"
  SuccessCount :: "32 word"
  ErrorCount :: "32 word"

type_synonym heap = "addr \<Rightarrow> Backend"

text \<open>Run-time panics of Go that the selection code can reach in the model.\<close>

datatype panic = IntegerDivideByZero | IndexOutOfRange

text \<open>
  An \<^verbatim>\<open>*http.Request\<close>, as far as the balancers read it: the header map and
  \<^verbatim>\<open>RemoteAddr\<close>. \<^verbatim>\<open>Header.Get\<close> gives the first value stored under the key, and
  the empty string when there is none; the map is keyed by the header names as the code
  writes them.
\<close>

record Request =
  Header :: "string \<rightharpoonup> string list"
  RemoteAddr :: string

definition Header_Get :: "(string \<rightharpoonup> string list) \<Rightarrow> string \<Rightarrow> string" where
  "Header_Get h key = (case h key of None \<Rightarrow> [] | Some [] \<Rightarrow> [] | Some (v # _) \<Rightarrow> v)"

text \<open>
  The loop \<^verbatim>\<open>for _, backend := range backends { if backend.Alive { append } }\<close>
  that the round-robin and IP-hash balancers both run.
\<close>

fun aliveBackends :: "heap \<Rightarrow> addr list \<Rightarrow> addr list" where
  "aliveBackends h [] = []"
| "aliveBackends h (b # bs) =
     (if Alive (h b) then b # aliveBackends h bs else aliveBackends h bs)"

text \<open>
  The number \<open>k\<close> of the claims: how many entries of a registry are alive.
\<close>

definition alive_count :: "heap \<Rightarrow> addr list \<Rightarrow> nat" where
  "alive_count h bs = length (filter (\<lambda>b. Alive (h b)) bs)"

section \<open>Round-robin\<close>

record RoundRobinBalancer =
  rb_backends :: "addr list"
  rb_current :: "64 word"

definition NewRoundRobinBalancer :: RoundRobinBalancer where
  "NewRoundRobinBalancer = \<lparr>rb_backends = [], rb_current = 0\<rparr>"

definition RoundRobin_AddBackend :: "RoundRobinBalancer \<Rightarrow> addr \<Rightarrow> RoundRobinBalancer" where
  "RoundRobin_AddBackend rb backend = rb\<lparr>rb_backends := rb_backends rb @ [backend]\<rparr>"

text \<open>
  \<^verbatim>\<open>RoundRobinBalancer.SelectBackend\<close>. \<^verbatim>\<open>atomic.AddUint64(&rb.current, 1)\<close> stores
  and returns the incremented cursor (wrapping at \<open>2 ^ 64\<close>), before the remainder is
  taken; the remainder by zero and the index out of range are Go's panics. The result is
  the returned pointer (\<open>None\<close> for \<^verbatim>\<open>nil\<close>), the balancer and the store afterwards.
\<close>

definition RoundRobin_SelectBackend ::
  "RoundRobinBalancer \<Rightarrow> heap \<Rightarrow> Request \<Rightarrow> (panic + addr option) \<times> RoundRobinBalancer \<times> heap" where
  "RoundRobin_SelectBackend rb h request =
     (if length (rb_backends rb) = 0 then (Inr None, rb, h)
      else let alive = aliveBackends h (rb_backends rb) in
        if length alive = 0 then (Inr None, rb, h)
        else let new = rb_current rb + 1;
                 rb' = rb\<lparr>rb_current := new\<rparr>;
                 n = (of_nat (length alive) :: 64 word) in
          if n = 0 then (Inl IntegerDivideByZero, rb', h)
          else let index = new mod n in
            if unat index < length alive then (Inr (Some (alive ! unat index)), rb', h)
            else (Inl IndexOutOfRange, rb', h))"

text \<open>A run of calls, one per request, each on the state the call before left.\<close>

fun RoundRobin_run ::
  "RoundRobinBalancer \<Rightarrow> heap \<Rightarrow> Request list \<Rightarrow> (panic + addr option) list \<times> RoundRobinBalancer \<times> heap" where
  "RoundRobin_run rb h [] = ([], rb, h)"
| "RoundRobin_run rb h (r # rs) =
     (case RoundRobin_SelectBackend rb h r of (res, rb', h') \<Rightarrow>
        (case RoundRobin_run rb' h' rs of (ress, rb'', h'') \<Rightarrow> (res # ress, rb'', h'')))"

section \<open>Least connections\<close>

record LeastConnectionsBalancer =
  lcb_backends :: "addr list"

text \<open>
  The scan of \<^verbatim>\<open>LeastConnectionsBalancer.SelectBackend\<close>, with its two loop
  variables. \<^verbatim>\<open>minConnections\<close> starts at \<^verbatim>\<open>int32(-1)\<close>, which the test
  \<^verbatim>\<open>minConnections == -1\<close> reads as "nothing selected yet"; the comparison of the
  counts is the signed one.
\<close>

fun lc_scan :: "heap \<Rightarrow> addr list \<Rightarrow> addr option \<Rightarrow> 32 word \<Rightarrow> addr option \<times> 32 word" where
  "lc_scan h [] selected minConnections = (selected, minConnections)"
| "lc_scan h (backend # rest) selected minConnections =
     (if \<not> Alive (h backend) then lc_scan h rest selected minConnections
      else let connections = Connections (h backend) in
        if minConnections = - 1 \<or> sint connections < sint minConnections
        then lc_scan h rest (Some backend) connections
        else lc_scan h rest selected minConnections)"

text \<open>
  \<^verbatim>\<open>LeastConnectionsBalancer.SelectBackend\<close>: after the scan,
  \<^verbatim>\<open>atomic.AddInt32(&selected.Connections, 1)\<close> writes through the selected pointer.
\<close>

definition LeastConnections_SelectBackend ::
  "LeastConnectionsBalancer \<Rightarrow> heap \<Rightarrow> Request \<Rightarrow> addr option \<times> LeastConnectionsBalancer \<times> heap" where
  "LeastConnections_SelectBackend lcb h request =
     (if length (lcb_backends lcb) = 0 then (None, lcb, h)
      else case fst (lc_scan h (lcb_backends lcb) None (- 1)) of
          None \<Rightarrow> (None, lcb, h)
        | Some selected \<Rightarrow>
            (Some selected, lcb,
             h(selected := (h selected)\<lparr>Connections := Connections (h selected) + 1\<rparr>)))"

text \<open>\<^verbatim>\<open>DecrementConnections\<close>: \<^verbatim>\<open>atomic.AddInt32(&backend.Connections, -1)\<close>.\<close>

definition DecrementConnections :: "heap \<Rightarrow> addr \<Rightarrow> heap" where
  "DecrementConnections h backend =
     h(backend := (h backend)\<lparr>Connections := Connections (h backend) + (- 1)\<rparr>)"

fun LeastConnections_run ::
  "LeastConnectionsBalancer \<Rightarrow> heap \<Rightarrow> Request list \<Rightarrow> addr option list \<times> LeastConnectionsBalancer \<times> heap" where
  "LeastConnections_run lcb h [] = ([], lcb, h)"
| "LeastConnections_run lcb h (r # rs) =
     (case LeastConnections_SelectBackend lcb h r of (res, lcb', h') \<Rightarrow>
        (case LeastConnections_run lcb' h' rs of (ress, lcb'', h'') \<Rightarrow> (res # ress, lcb'', h'')))"

text \<open>
  The sum of the connection counts of the backends of a registry, each backend object
  counted once however often its pointer was added, the counts read as signed numbers.
\<close>

definition total_connections :: "heap \<Rightarrow> addr list \<Rightarrow> int" where
  "total_connections h bs = sum_list (map (\<lambda>b. sint (Connections (h b))) (remdups bs))"

text \<open>The number of calls of a run that returned a backend.\<close>

definition successes :: "addr option list \<Rightarrow> nat" where
  "successes ress = length (filter (\<lambda>res. res \<noteq> None) ress)"

text \<open>
  No increment of a run wraps around: each backend the run selects has a count other
  than the largest \<^verbatim>\<open>int32\<close> at the moment it is selected.
\<close>

fun no_int32_overflow :: "LeastConnectionsBalancer \<Rightarrow> heap \<Rightarrow> Request list \<Rightarrow> bool" where
  "no_int32_overflow lcb h [] = True"
| "no_int32_overflow lcb h (r # rs) =
     (case LeastConnections_SelectBackend lcb h r of (res, lcb', h') \<Rightarrow>
        (case res of None \<Rightarrow> True | Some b \<Rightarrow> Connections (h b) \<noteq> 2147483647)
        \<and> no_int32_overflow lcb' h' rs)"

section \<open>IP hash\<close>

text \<open>
  Functions of Go's standard library that the IP-hash balancer calls and that are not
  modelled here are parameters: \<^verbatim>\<open>md5.Sum\<close> (its \<^verbatim>\<open>[16]byte\<close> result given by the
  byte at each index), \<^verbatim>\<open>strings.TrimSpace\<close>, and \<^verbatim>\<open>net.SplitHostPort\<close> (the host
  it returns, \<open>None\<close> when it returns an error).
\<close>

record stdlib =
  md5_Sum :: "string \<Rightarrow> nat \<Rightarrow> 8 word"
  strings_TrimSpace :: "string \<Rightarrow> string"
  net_SplitHostPort :: "string \<Rightarrow> string option"

text \<open>\<^verbatim>\<open>strings.Split(s, sep)\<close> for a separator of one byte.\<close>

fun strings_Split :: "string \<Rightarrow> char \<Rightarrow> string list" where
  "strings_Split [] sep = [[]]"
| "strings_Split (c # cs) sep =
     (if c = sep then [] # strings_Split cs sep
      else (case strings_Split cs sep of
              [] \<Rightarrow> [[c]]
            | x # xs \<Rightarrow> (c # x) # xs))"

definition getClientIP :: "stdlib \<Rightarrow> Request \<Rightarrow> panic + string" where
  "getClientIP lib request =
     (let forwarded = Header_Get (Header request) ''X-Forwarded-For'' in
      if forwarded \<noteq> [] then
        (case strings_Split forwarded (CHR '','') of
           [] \<Rightarrow> Inl IndexOutOfRange
         | ip # _ \<Rightarrow> Inr (strings_TrimSpace lib ip))
      else let realIP = Header_Get (Header request) ''X-Real-IP'' in
        if realIP \<noteq> [] then Inr realIP
        else (case net_SplitHostPort lib (RemoteAddr request) of
                None \<Rightarrow> Inr (RemoteAddr request)
              | Some host \<Rightarrow> Inr host))"

text \<open>
  \<^verbatim>\<open>fmt.Sprintf("%x", bytes)\<close>: two lower-case hexadecimal digits for each byte, the
  high half first.
\<close>

definition ldigits :: string where
  "ldigits = ''0123456789abcdefx''"

definition fmt_Sprintf_x :: "8 word list \<Rightarrow> string" where
  "fmt_Sprintf_x bs =
     concat (map (\<lambda>c. [ldigits ! unat (drop_bit 4 c), ldigits ! unat (c AND 15)]) bs)"

text \<open>
  \<^verbatim>\<open>strconv.ParseInt(s, 16, 64)\<close> and the \<^verbatim>\<open>strconv.ParseUint(s, 16, 64)\<close> it calls,
  on the unsigned 64-bit accumulator with the wrap-around written out. The value Go
  returns next to an error is left out: \<^verbatim>\<open>hashIP\<close> does not read it.
\<close>

datatype NumError = ErrSyntax | ErrRange

definition digitValue :: "char \<Rightarrow> nat option" where
  "digitValue ch =
     (let c = (of_char ch :: nat); lower = (if 65 \<le> c \<and> c \<le> 90 then c + 32 else c) in
      if 48 \<le> c \<and> c \<le> 57 then Some (c - 48)
      else if 97 \<le> lower \<and> lower \<le> 122 then Some (lower - 97 + 10)
      else None)"

definition maxUint64 :: nat where
  "maxUint64 = 2 ^ 64 - 1"

fun ParseUint16_loop :: "nat \<Rightarrow> string \<Rightarrow> NumError + nat" where
  "ParseUint16_loop n [] = Inr n"
| "ParseUint16_loop n (c # cs) =
     (case digitValue c of
        None \<Rightarrow> Inl ErrSyntax
      | Some d \<Rightarrow>
          if d \<ge> 16 then Inl ErrSyntax
          else if n \<ge> maxUint64 div 16 + 1 then Inl ErrRange
          else let n' = (n * 16) mod 2 ^ 64; n1 = (n' + d) mod 2 ^ 64 in
            if n1 < n' \<or> n1 > maxUint64 then Inl ErrRange
            else ParseUint16_loop n1 cs)"

definition strconv_ParseUint16 :: "string \<Rightarrow> NumError + nat" where
  "strconv_ParseUint16 s = (if s = [] then Inl ErrSyntax else ParseUint16_loop 0 s)"

definition strconv_ParseInt16 :: "string \<Rightarrow> NumError + int" where
  "strconv_ParseInt16 s =
     (case s of
        [] \<Rightarrow> Inl ErrSyntax
      | c # cs \<Rightarrow>
          let neg = (c = CHR ''-'');
              s' = (if c = CHR ''+'' \<or> c = CHR ''-'' then cs else s) in
          (case strconv_ParseUint16 s' of
             Inl ErrSyntax \<Rightarrow> Inl ErrSyntax
           | Inl ErrRange \<Rightarrow> Inl ErrRange
           | Inr un \<Rightarrow>
               if \<not> neg \<and> un \<ge> 2 ^ 63 then Inl ErrRange
               else if neg \<and> un > 2 ^ 63 then Inl ErrRange
               else Inr (if neg then - int un else int un)))"

text \<open>
  \<^verbatim>\<open>IPHashBalancer.hashIP\<close>: \<^verbatim>\<open>hash[:4]\<close> are the bytes at the indices 0 to 3, and
  \<^verbatim>\<open>uint32(hashInt)\<close> keeps the low 32 bits.
\<close>

definition hashIP :: "stdlib \<Rightarrow> string \<Rightarrow> 32 word" where
  "hashIP lib ip =
     (let hash = md5_Sum lib ip;
          hashStr = fmt_Sprintf_x (map hash [0..<4]) in
      case strconv_ParseInt16 hashStr of
        Inl err \<Rightarrow> 0
      | Inr hashInt \<Rightarrow> word_of_int hashInt)"

text \<open>
  The big-endian reading of four bytes as an unsigned 32-bit number, as the words
  "big-endian interpretation" say it: the first byte is the most significant.
\<close>

definition BigEndian_Uint32 :: "8 word \<Rightarrow> 8 word \<Rightarrow> 8 word \<Rightarrow> 8 word \<Rightarrow> 32 word" where
  "BigEndian_Uint32 b0 b1 b2 b3 =
     of_nat (unat b0 * 2 ^ 24 + unat b1 * 2 ^ 16 + unat b2 * 2 ^ 8 + unat b3)"

record IPHashBalancer =
  ihb_backends :: "addr list"

definition IPHash_SelectBackend ::
  "stdlib \<Rightarrow> IPHashBalancer \<Rightarrow> heap \<Rightarrow> Request \<Rightarrow> (panic + addr option) \<times> IPHashBalancer \<times> heap" where
  "IPHash_SelectBackend lib ihb h request =
     (if length (ihb_backends ihb) = 0 then (Inr None, ihb, h)
      else let alive = aliveBackends h (ihb_backends ihb) in
        if length alive = 0 then (Inr None, ihb, h)
        else (case getClientIP lib request of
                Inl p \<Rightarrow> (Inl p, ihb, h)
              | Inr clientIP \<Rightarrow>
                  let hash = hashIP lib clientIP;
                      n = (of_nat (length alive) :: 32 word) in
                  if n = 0 then (Inl IntegerDivideByZero, ihb, h)
                  else let index = hash mod n in
                    if unat index < length alive then (Inr (Some (alive ! unat index)), ihb, h)
                    else (Inl IndexOutOfRange, ihb, h)))"

section \<open>Health check\<close>

text \<open>
  What the network gives \<^verbatim>\<open>CheckHealth\<close>: \<^verbatim>\<open>http.NewRequestWithContext\<close> returned an
  error; or \<^verbatim>\<open>client.Do\<close> returned an error (connection failure, timeout); or a
  response arrived, with its status code.
\<close>

datatype probe = NewRequestError | DoError | Response int

fun CheckHealth :: "heap \<Rightarrow> addr \<Rightarrow> probe \<Rightarrow> bool \<times> heap" where
  "CheckHealth h backend NewRequestError = (False, h)"
| "CheckHealth h backend DoError =
     (False, h(backend := (h backend)\<lparr>ErrorCount := ErrorCount (h backend) + 1\<rparr>))"
| "CheckHealth h backend (Response StatusCode) =
     (if StatusCode \<ge> 200 \<and> StatusCode < 300
      then (True, h(backend := (h backend)\<lparr>SuccessCount := SuccessCount (h backend) + 1\<rparr>))
      else (False, h(backend := (h backend)\<lparr>ErrorCount := ErrorCount (h backend) + 1\<rparr>)))"

section \<open>Configuration\<close>

text \<open>\<^verbatim>\<open>time.Duration\<close> is an \<^verbatim>\<open>int64\<close>: a 64-bit word read with \<open>sint\<close>.\<close>

record Config =
  Port :: string
  Backends :: "string list"
  Algorithm :: string
  HealthCheckInterval :: "64 word"
  HealthCheckTimeout :: "64 word"

definition validAlgorithms :: "string \<rightharpoonup> bool" where
  "validAlgorithms =
     [''round-robin'' \<mapsto> True, ''least-connections'' \<mapsto> True, ''ip-hash'' \<mapsto> True]"

text \<open>Indexing a Go \<^verbatim>\<open>map[string]bool\<close>: \<^verbatim>\<open>false\<close> for a key that is not there.\<close>

definition map_index :: "(string \<rightharpoonup> bool) \<Rightarrow> string \<Rightarrow> bool" where
  "map_index m k = (case m k of None \<Rightarrow> False | Some v \<Rightarrow> v)"

text \<open>\<^verbatim>\<open>validateConfig\<close>: \<open>None\<close> is the \<^verbatim>\<open>nil\<close> error, \<open>Some\<close> carries the message.\<close>

definition validateConfig :: "Config \<Rightarrow> string option" where
  "validateConfig config =
     (if length (Backends config) = 0 then Some ''at least one backend must be specified''
      else if \<not> map_index validAlgorithms (Algorithm config) then
        Some (''invalid algorithm: '' @ Algorithm config
              @ ''. Valid options: round-robin, least-connections, ip-hash'')
      else if sint (HealthCheckInterval config) \<le> 0 then
        Some ''health check interval must be positive''
      else if sint (HealthCheckTimeout config) \<le> 0 then
        Some ''health check timeout must be positive''
      else None)"

text \<open>
  The start of \<^verbatim>\<open>main\<close>: \<^verbatim>\<open>log.Fatalf\<close> ends the process when \<^verbatim>\<open>validateConfig\<close>
  returns an error; otherwise \<^verbatim>\<open>main\<close> goes on to build the balancer.
\<close>

datatype startup = Fatal string | Continues

definition main_startup :: "Config \<Rightarrow> startup" where
  "main_startup config =
     (case validateConfig config of
        Some err \<Rightarrow> Fatal (''Configuration error: '' @ err)
      | None \<Rightarrow> Continues)"

section \<open>States for evaluation\<close>

definition fresh :: Backend where
  "fresh = \<lparr>URL = ''http://localhost:3001'', Alive = True, Connections = 0,
            SuccessCount = 0, ErrorCount = 0\<rparr>"

text \<open>A store in which every backend is as \<^verbatim>\<open>main\<close> creates it: alive, all counts 0.\<close>

definition fresh_heap :: heap where
  "fresh_heap = (\<lambda>a. fresh)"

definition plain_request :: Request where
  "plain_request = \<lparr>Header = Map.empty, RemoteAddr = []\<rparr>"

text \<open>The round-robin balancer after \<^verbatim>\<open>AddBackend\<close> of three pointers, in this order.\<close>

definition three_added :: "addr \<Rightarrow> addr \<Rightarrow> addr \<Rightarrow> RoundRobinBalancer" where
  "three_added b0 b1 b2 =
     RoundRobin_AddBackend (RoundRobin_AddBackend (RoundRobin_AddBackend
       NewRoundRobinBalancer b0) b1) b2"

text \<open>Three backends, the cursor two calls before the end of the \<^verbatim>\<open>uint64\<close> range.\<close>

definition near_wrap :: RoundRobinBalancer where
  "near_wrap = \<lparr>rb_backends = [0, 1, 2], rb_current = 18446744073709551614\<rparr>"

text \<open>Four backends, the same cursor: the alive count divides \<open>2 ^ 64\<close>.\<close>

definition near_wrap4 :: RoundRobinBalancer where
  "near_wrap4 = \<lparr>rb_backends = [0, 1, 2, 3], rb_current = 18446744073709551614\<rparr>"

text \<open>Backends 0, 1 and 2 alive, with the given connection counts.\<close>

definition count_heap :: "32 word \<Rightarrow> 32 word \<Rightarrow> 32 word \<Rightarrow> heap" where
  "count_heap c0 c1 c2 =
     fresh_heap(0 := fresh\<lparr>Connections := c0\<rparr>, 1 := fresh\<lparr>Connections := c1\<rparr>,
                2 := fresh\<lparr>Connections := c2\<rparr>)"

text \<open>A store in which no backend is alive.\<close>

definition dead_heap :: heap where
  "dead_heap = (\<lambda>a. fresh\<lparr>Alive := False\<rparr>)"

text \<open>
  An environment for evaluation. Its \<^verbatim>\<open>md5.Sum\<close> gives every input the MD5 digest of
  the empty string, d41d8cd98f00b204e9800998ecf8427e; its \<^verbatim>\<open>TrimSpace\<close> is right on
  strings without white space at either end, and its \<^verbatim>\<open>SplitHostPort\<close> is right on
  addresses without a port, where Go returns an error.
\<close>

definition md5_empty :: "nat \<Rightarrow> 8 word" where
  "md5_empty i = [0xd4, 0x1d, 0x8c, 0xd9, 0x8f, 0x00, 0xb2, 0x04,
                  0xe9, 0x80, 0x09, 0x98, 0xec, 0xf8, 0x42, 0x7e] ! i"

definition eval_lib :: stdlib where
  "eval_lib = \<lparr>md5_Sum = (\<lambda>s. md5_empty), strings_TrimSpace = (\<lambda>s. s),
               net_SplitHostPort = (\<lambda>s. None)\<rparr>"

text \<open>Two requests of one client, as they arrive through two kinds of proxy.\<close>

definition forwarded_request :: Request where
  "forwarded_request = \<lparr>Header = [''X-Forwarded-For'' \<mapsto> [''10.0.0.1,10.0.0.2'']],
                          RemoteAddr = ''192.168.1.9:5555''\<rparr>"

definition real_ip_request :: Request where
  "real_ip_request = \<lparr>Header = [''X-Real-IP'' \<mapsto> [''10.0.0.1'']],
                        RemoteAddr = ''192.168.1.7:4444''\<rparr>"

text \<open>The defaults of the command line, with one backend.\<close>

definition valid_config :: Config where
  "valid_config = \<lparr>Port = ''8080'', Backends = [''http://localhost:3001''],
     Algorithm = ''round-robin'', HealthCheckInterval = 30000000000, HealthCheckTimeout = 5000000000\<rparr>"

section \<open>Facts about the alive list\<close>

lemma aliveBackends_filter: "aliveBackends h bs = filter (\<lambda>b. Alive (h b)) bs"
  by (induction bs) simp_all

lemma aliveBackends_empty_iff:
  "aliveBackends h bs = [] \<longleftrightarrow> (\<forall>b \<in> set bs. \<not> Alive (h b))"
  by (simp add: aliveBackends_filter filter_empty_conv)

lemma aliveBackends_member:
  "b \<in> set (aliveBackends h bs) \<longleftrightarrow> b \<in> set bs \<and> Alive (h b)"
  by (simp add: aliveBackends_filter)

lemma alive_count_aliveBackends: "alive_count h bs = length (aliveBackends h bs)"
  by (simp add: alive_count_def aliveBackends_filter)

lemma alive_count_zero_iff: "alive_count h bs = 0 \<longleftrightarrow> (\<forall>b \<in> set bs. \<not> Alive (h b))"
  by (simp add: alive_count_aliveBackends aliveBackends_empty_iff)

lemma nth_alive: "i < length (aliveBackends h bs) \<Longrightarrow>
    aliveBackends h bs ! i \<in> set bs \<and> Alive (h (aliveBackends h bs ! i))"
  using aliveBackends_member [of "aliveBackends h bs ! i" h bs] by simp

section \<open>Round-robin: one call and a run of calls\<close>

text \<open>
  With at least one backend alive, and fewer than \<open>2 ^ 64\<close> of them, a call returns the
  alive backend at the incremented cursor modulo the alive count.
\<close>

lemma RoundRobin_select_alive:
  assumes "0 < length (aliveBackends h (rb_backends rb))"
    and "length (aliveBackends h (rb_backends rb)) < 2 ^ 64"
  shows "RoundRobin_SelectBackend rb h r =
    (Inr (Some (aliveBackends h (rb_backends rb) !
        (unat (rb_current rb + 1) mod length (aliveBackends h (rb_backends rb))))),
     rb\<lparr>rb_current := rb_current rb + 1\<rparr>, h)"
proof -
  let ?alive = "aliveBackends h (rb_backends rb)"
  let ?n = "of_nat (length ?alive) :: 64 word"
  have un: "unat ?n = length ?alive"
    using assms(2) by (simp add: unat_of_nat)
  have n0: "?n \<noteq> 0"
    using un assms(1) by (metis less_numeral_extra(3) unat_0)
  have bs: "rb_backends rb \<noteq> []"
    using assms(1) by auto
  have idx: "unat ((rb_current rb + 1) mod ?n) = unat (rb_current rb + 1) mod length ?alive"
    by (simp add: unat_mod un)
  have lt: "unat (rb_current rb + 1) mod length ?alive < length ?alive"
    using assms(1) by simp
  show ?thesis
    using n0 bs assms(1) idx lt
    by (simp add: RoundRobin_SelectBackend_def Let_def)
qed

lemma RoundRobin_run_cursor:
  assumes "0 < length (aliveBackends h (rb_backends rb))"
    and "length (aliveBackends h (rb_backends rb)) < 2 ^ 64"
  shows "RoundRobin_run rb h rs =
    (map (\<lambda>i. Inr (Some (aliveBackends h (rb_backends rb) !
        (unat (rb_current rb + 1 + of_nat i) mod length (aliveBackends h (rb_backends rb))))))
       [0..<length rs],
     rb\<lparr>rb_current := rb_current rb + of_nat (length rs)\<rparr>, h)"
  using assms
proof (induction rs arbitrary: rb)
  case Nil
  then show ?case by simp
next
  case (Cons r rs)
  let ?rb' = "rb\<lparr>rb_current := rb_current rb + 1\<rparr>"
  have sel: "RoundRobin_SelectBackend rb h r =
    (Inr (Some (aliveBackends h (rb_backends rb) !
        (unat (rb_current rb + 1) mod length (aliveBackends h (rb_backends rb))))), ?rb', h)"
    using Cons.prems by (rule RoundRobin_select_alive)
  have IH: "RoundRobin_run ?rb' h rs =
    (map (\<lambda>i. Inr (Some (aliveBackends h (rb_backends rb) !
        (unat (rb_current rb + 1 + 1 + of_nat i) mod length (aliveBackends h (rb_backends rb))))))
       [0..<length rs],
     ?rb'\<lparr>rb_current := rb_current ?rb' + of_nat (length rs)\<rparr>, h)"
    using Cons.IH [of ?rb'] Cons.prems by simp
  show ?case
    using sel IH
    by (simp add: map_upt_Suc add.assoc del: upt_Suc)
qed

lemma cursor_index:
  fixes c :: "64 word"
  assumes "unat c + 1 + i < 2 ^ 64 \<or> k dvd 2 ^ 64"
  shows "unat (c + 1 + of_nat i) mod k = (unat c + 1 + i) mod k"
proof -
  have "unat (c + 1 + of_nat i) = (unat c + 1 + i) mod 2 ^ 64"
    by (simp add: unat_word_ariths unat_of_nat mod_simps)
  moreover have "(unat c + 1 + i) mod 2 ^ 64 mod k = (unat c + 1 + i) mod k"
    using assms
  proof
    assume "unat c + 1 + i < 2 ^ 64"
    then show ?thesis by simp
  next
    assume "k dvd 2 ^ 64"
    then show ?thesis by (rule mod_mod_cancel)
  qed
  ultimately show ?thesis by simp
qed

lemma rotate_as_map:
  assumes "0 < length xs"
  shows "map (\<lambda>i. xs ! ((c + i) mod length xs)) [0..<length xs] = rotate (c mod length xs) xs"
  by (rule nth_equalityI) (simp_all add: nth_rotate assms mod_add_left_eq)

lemma RoundRobin_select_sound:
  "(\<forall>b. fst (RoundRobin_SelectBackend rb h request) = Inr (Some b) \<longrightarrow>
        b \<in> set (rb_backends rb) \<and> Alive (h b))
   \<and> (fst (RoundRobin_SelectBackend rb h request) = Inr None \<longleftrightarrow>
        alive_count h (rb_backends rb) = 0)"
  using nth_alive [of _ h "rb_backends rb"]
  by (auto simp: RoundRobin_SelectBackend_def Let_def alive_count_aliveBackends)

lemma RoundRobin_select_returns:
  assumes "0 < alive_count h (rb_backends rb)" and "alive_count h (rb_backends rb) < 2 ^ 64"
  shows "\<exists>b. fst (RoundRobin_SelectBackend rb h request) = Inr (Some b)"
  using RoundRobin_select_alive [of h rb request] assms
  by (simp add: alive_count_aliveBackends)

section \<open>Least connections: the scan\<close>

text \<open>
  Nothing is selected exactly when nothing is alive; what is selected is alive.
\<close>

lemma lc_scan_None_iff:
  assumes "selected = None \<Longrightarrow> m = - 1"
  shows "fst (lc_scan h bs selected m) = None \<longleftrightarrow> selected = None \<and> (\<forall>b \<in> set bs. \<not> Alive (h b))"
  using assms
proof (induction bs arbitrary: selected m)
  case Nil
  then show ?case by simp
next
  case (Cons b bs)
  show ?case
  proof (cases "Alive (h b)")
    case False
    then show ?thesis using Cons.IH [of selected m] Cons.prems by simp
  next
    case True
    show ?thesis
    proof (cases "m = - 1 \<or> sint (Connections (h b)) < sint m")
      case t: True
      then show ?thesis
        using True Cons.IH [of "Some b" "Connections (h b)"] by (simp add: Let_def)
    next
      case f: False
      then have ne: "selected \<noteq> None" using Cons.prems by auto
      then have "fst (lc_scan h bs selected m) \<noteq> None"
        using Cons.IH [of selected m] by blast
      then show ?thesis
        using True f ne by (simp add: Let_def)
    qed
  qed
qed

lemma lc_scan_Some:
  "fst (lc_scan h bs selected m) = Some b \<Longrightarrow> selected = Some b \<or> (b \<in> set bs \<and> Alive (h b))"
proof (induction bs arbitrary: selected m)
  case Nil
  then show ?case by simp
next
  case (Cons a bs)
  then show ?case
    by (fastforce simp: Let_def split: if_splits)
qed

text \<open>
  Once a backend is selected and no alive count equals the sentinel, the scan keeps the
  first backend with the least count: either the selection stands and everything alive
  that follows has at least its count, or the list splits around the new selection, with
  larger counts before it and no smaller ones after it.
\<close>

lemma lc_scan_first_min:
  assumes "m \<noteq> - 1"
    and "\<forall>x \<in> set xs. Alive (h x) \<longrightarrow> Connections (h x) \<noteq> - 1"
  shows "(lc_scan h xs (Some b) m = (Some b, m)
          \<and> (\<forall>x \<in> set xs. Alive (h x) \<longrightarrow> sint m \<le> sint (Connections (h x))))
       \<or> (\<exists>ys b' zs. xs = ys @ b' # zs \<and> Alive (h b')
            \<and> lc_scan h xs (Some b) m = (Some b', Connections (h b'))
            \<and> sint (Connections (h b')) < sint m
            \<and> (\<forall>y \<in> set ys. Alive (h y) \<longrightarrow> sint (Connections (h b')) < sint (Connections (h y)))
            \<and> (\<forall>z \<in> set zs. Alive (h z) \<longrightarrow> sint (Connections (h b')) \<le> sint (Connections (h z))))"
  using assms
proof (induction xs arbitrary: b m)
  case Nil
  then show ?case by simp
next
  case (Cons x xs)
  let ?c = "\<lambda>a. sint (Connections (h a))"
  have rest: "\<forall>x \<in> set xs. Alive (h x) \<longrightarrow> Connections (h x) \<noteq> - 1"
    using Cons.prems(2) by simp
  show ?case
  proof (cases "Alive (h x)")
    case dead: False
    from Cons.IH [OF Cons.prems(1) rest, of b]
    show ?thesis
    proof (elim disjE exE conjE)
      assume "lc_scan h xs (Some b) m = (Some b, m)"
        and "\<forall>x \<in> set xs. Alive (h x) \<longrightarrow> sint m \<le> ?c x"
      then show ?thesis using dead by simp
    next
      fix ys b' zs
      assume d: "xs = ys @ b' # zs" "Alive (h b')"
        "lc_scan h xs (Some b) m = (Some b', Connections (h b'))"
        "?c b' < sint m"
        "\<forall>y \<in> set ys. Alive (h y) \<longrightarrow> ?c b' < ?c y"
        "\<forall>z \<in> set zs. Alive (h z) \<longrightarrow> ?c b' \<le> ?c z"
      have "x # xs = (x # ys) @ b' # zs" using d(1) by simp
      moreover have "lc_scan h (x # xs) (Some b) m = (Some b', Connections (h b'))"
        using dead d(3) by simp
      moreover have "\<forall>y \<in> set (x # ys). Alive (h y) \<longrightarrow> ?c b' < ?c y"
        using dead d(5) by simp
      ultimately show ?thesis using d(2,4,6) by blast
    qed
  next
    case alive: True
    have cx: "Connections (h x) \<noteq> - 1"
      using Cons.prems(2) alive by simp
    show ?thesis
    proof (cases "?c x < sint m")
      case less: True
      have scan: "lc_scan h (x # xs) (Some b) m = lc_scan h xs (Some x) (Connections (h x))"
        using alive less by (simp add: Let_def)
      from Cons.IH [OF cx rest, of x]
      show ?thesis
      proof (elim disjE exE conjE)
        assume "lc_scan h xs (Some x) (Connections (h x)) = (Some x, Connections (h x))"
          and "\<forall>y \<in> set xs. Alive (h y) \<longrightarrow> ?c x \<le> ?c y"
        then have "x # xs = [] @ x # xs \<and> Alive (h x)
            \<and> lc_scan h (x # xs) (Some b) m = (Some x, Connections (h x))
            \<and> ?c x < sint m
            \<and> (\<forall>y \<in> set []. Alive (h y) \<longrightarrow> ?c x < ?c y)
            \<and> (\<forall>z \<in> set xs. Alive (h z) \<longrightarrow> ?c x \<le> ?c z)"
          using scan alive less by simp
        then show ?thesis by blast
      next
        fix ys b' zs
        assume d: "xs = ys @ b' # zs" "Alive (h b')"
          "lc_scan h xs (Some x) (Connections (h x)) = (Some b', Connections (h b'))"
          "?c b' < ?c x"
          "\<forall>y \<in> set ys. Alive (h y) \<longrightarrow> ?c b' < ?c y"
          "\<forall>z \<in> set zs. Alive (h z) \<longrightarrow> ?c b' \<le> ?c z"
        have "x # xs = (x # ys) @ b' # zs" using d(1) by simp
        moreover have "lc_scan h (x # xs) (Some b) m = (Some b', Connections (h b'))"
          using scan d(3) by simp
        moreover have "\<forall>y \<in> set (x # ys). Alive (h y) \<longrightarrow> ?c b' < ?c y"
          using d(4,5) by simp
        moreover have "?c b' < sint m" using d(4) less by simp
        ultimately show ?thesis using d(2,6) by blast
      qed
    next
      case geq: False
      have scan: "lc_scan h (x # xs) (Some b) m = lc_scan h xs (Some b) m"
        using alive geq Cons.prems(1) by (simp add: Let_def)
      from Cons.IH [OF Cons.prems(1) rest, of b]
      show ?thesis
      proof (elim disjE exE conjE)
        assume "lc_scan h xs (Some b) m = (Some b, m)"
          and "\<forall>x \<in> set xs. Alive (h x) \<longrightarrow> sint m \<le> ?c x"
        then show ?thesis using scan geq by simp
      next
        fix ys b' zs
        assume d: "xs = ys @ b' # zs" "Alive (h b')"
          "lc_scan h xs (Some b) m = (Some b', Connections (h b'))"
          "?c b' < sint m"
          "\<forall>y \<in> set ys. Alive (h y) \<longrightarrow> ?c b' < ?c y"
          "\<forall>z \<in> set zs. Alive (h z) \<longrightarrow> ?c b' \<le> ?c z"
        have "x # xs = (x # ys) @ b' # zs" using d(1) by simp
        moreover have "lc_scan h (x # xs) (Some b) m = (Some b', Connections (h b'))"
          using scan d(3) by simp
        moreover have "\<forall>y \<in> set (x # ys). Alive (h y) \<longrightarrow> ?c b' < ?c y"
          using d(4,5) geq by auto
        ultimately show ?thesis using d(2,4,6) by blast
      qed
    qed
  qed
qed

lemma lc_scan_start:
  assumes "\<exists>b \<in> set bs. Alive (h b)"
    and "\<forall>x \<in> set bs. Alive (h x) \<longrightarrow> Connections (h x) \<noteq> - 1"
  shows "\<exists>ys b zs. bs = ys @ b # zs \<and> Alive (h b)
           \<and> fst (lc_scan h bs None (- 1)) = Some b
           \<and> (\<forall>y \<in> set ys. Alive (h y) \<longrightarrow> sint (Connections (h b)) < sint (Connections (h y)))
           \<and> (\<forall>z \<in> set zs. Alive (h z) \<longrightarrow> sint (Connections (h b)) \<le> sint (Connections (h z)))"
  using assms
proof (induction bs)
  case Nil
  then show ?case by simp
next
  case (Cons x xs)
  let ?c = "\<lambda>a. sint (Connections (h a))"
  have rest: "\<forall>x \<in> set xs. Alive (h x) \<longrightarrow> Connections (h x) \<noteq> - 1"
    using Cons.prems(2) by simp
  show ?case
  proof (cases "Alive (h x)")
    case dead: False
    then have "\<exists>b \<in> set xs. Alive (h b)" using Cons.prems(1) by auto
    from Cons.IH [OF this rest] obtain ys b zs where d:
      "xs = ys @ b # zs" "Alive (h b)" "fst (lc_scan h xs None (- 1)) = Some b"
      "\<forall>y \<in> set ys. Alive (h y) \<longrightarrow> ?c b < ?c y"
      "\<forall>z \<in> set zs. Alive (h z) \<longrightarrow> ?c b \<le> ?c z"
      by blast
    have "x # xs = (x # ys) @ b # zs" using d(1) by simp
    moreover have "fst (lc_scan h (x # xs) None (- 1)) = Some b"
      using dead d(3) by simp
    moreover have "\<forall>y \<in> set (x # ys). Alive (h y) \<longrightarrow> ?c b < ?c y"
      using dead d(4) by simp
    ultimately show ?thesis using d(2,5) by blast
  next
    case alive: True
    have cx: "Connections (h x) \<noteq> - 1"
      using Cons.prems(2) alive by simp
    have scan: "lc_scan h (x # xs) None (- 1) = lc_scan h xs (Some x) (Connections (h x))"
      using alive by (simp add: Let_def)
    from lc_scan_first_min [OF cx rest, of x]
    show ?thesis
    proof (elim disjE exE conjE)
      assume "lc_scan h xs (Some x) (Connections (h x)) = (Some x, Connections (h x))"
        and "\<forall>y \<in> set xs. Alive (h y) \<longrightarrow> ?c x \<le> ?c y"
      then have "x # xs = [] @ x # xs \<and> Alive (h x)
          \<and> fst (lc_scan h (x # xs) None (- 1)) = Some x
          \<and> (\<forall>y \<in> set []. Alive (h y) \<longrightarrow> ?c x < ?c y)
          \<and> (\<forall>z \<in> set xs. Alive (h z) \<longrightarrow> ?c x \<le> ?c z)"
        using scan alive by simp
      then show ?thesis by blast
    next
      fix ys b' zs
      assume d: "xs = ys @ b' # zs" "Alive (h b')"
        "lc_scan h xs (Some x) (Connections (h x)) = (Some b', Connections (h b'))"
        "?c b' < ?c x"
        "\<forall>y \<in> set ys. Alive (h y) \<longrightarrow> ?c b' < ?c y"
        "\<forall>z \<in> set zs. Alive (h z) \<longrightarrow> ?c b' \<le> ?c z"
      have "x # xs = (x # ys) @ b' # zs" using d(1) by simp
      moreover have "fst (lc_scan h (x # xs) None (- 1)) = Some b'"
        using scan d(3) by simp
      moreover have "\<forall>y \<in> set (x # ys). Alive (h y) \<longrightarrow> ?c b' < ?c y"
        using d(4,5) by simp
      ultimately show ?thesis using d(2,6) by blast
    qed
  qed
qed

lemma LeastConnections_select_cases:
  "(fst (lc_scan h (lcb_backends lcb) None (- 1)) = None
      \<and> LeastConnections_SelectBackend lcb h request = (None, lcb, h))
   \<or> (\<exists>b. fst (lc_scan h (lcb_backends lcb) None (- 1)) = Some b
        \<and> b \<in> set (lcb_backends lcb) \<and> Alive (h b)
        \<and> LeastConnections_SelectBackend lcb h request =
            (Some b, lcb, h(b := (h b)\<lparr>Connections := Connections (h b) + 1\<rparr>)))"
proof (cases "fst (lc_scan h (lcb_backends lcb) None (- 1))")
  case None
  then show ?thesis
    by (simp add: LeastConnections_SelectBackend_def)
next
  case (Some b)
  then have mem: "b \<in> set (lcb_backends lcb) \<and> Alive (h b)"
    using lc_scan_Some [of h "lcb_backends lcb" None "- 1" b] by simp
  then have "lcb_backends lcb \<noteq> []" by auto
  then show ?thesis
    using Some mem by (simp add: LeastConnections_SelectBackend_def)
qed

lemma LeastConnections_select_sound:
  "(\<forall>b. fst (LeastConnections_SelectBackend lcb h request) = Some b \<longrightarrow>
        b \<in> set (lcb_backends lcb) \<and> Alive (h b))
   \<and> (fst (LeastConnections_SelectBackend lcb h request) = None \<longleftrightarrow>
        alive_count h (lcb_backends lcb) = 0)"
  using LeastConnections_select_cases [of h lcb request]
    lc_scan_None_iff [of None "- 1" h "lcb_backends lcb"]
  by (auto simp: alive_count_zero_iff)

section \<open>Least connections: the counts\<close>

lemma sint_succ32:
  fixes x :: "32 word"
  assumes "x \<noteq> 2147483647"
  shows "sint (x + 1) = sint x + 1"
proof -
  have "sint x \<noteq> 2147483647"
  proof
    assume "sint x = 2147483647"
    then have "word_of_int (sint x) = (word_of_int 2147483647 :: 32 word)" by simp
    then show False using assms by simp
  qed
  moreover have "sint x < 2 ^ 31" using sint_lt [of x] by simp
  moreover have "- (2 ^ 31) \<le> sint x" using sint_ge [of x] by simp
  ultimately have "- (2 ^ 31) \<le> sint x + 1" "sint x + 1 < 2 ^ 31" by simp_all
  then have "signed_take_bit 31 (sint x + 1) = sint x + 1"
    by (rule signed_take_bit_int_eq_self)
  then show ?thesis
    by (simp add: sint_word_ariths)
qed

lemma sum_list_map_upd:
  fixes f :: "'a \<Rightarrow> int"
  assumes "distinct xs" and "b \<in> set xs"
  shows "sum_list (map (f(b := v)) xs) = sum_list (map f xs) - f b + v"
  using assms
  by (induction xs) (auto simp: map_idI)

lemma total_connections_incr:
  assumes "b \<in> set bs" and "Connections (h b) \<noteq> 2147483647"
  shows "total_connections (h(b := (h b)\<lparr>Connections := Connections (h b) + 1\<rparr>)) bs
         = total_connections h bs + 1"
proof -
  let ?h' = "h(b := (h b)\<lparr>Connections := Connections (h b) + 1\<rparr>)"
  let ?f = "\<lambda>a. sint (Connections (h a))"
  have "(\<lambda>a. sint (Connections (?h' a))) = ?f(b := sint (Connections (h b) + 1))"
    by (rule ext) simp
  then have "total_connections ?h' bs
      = sum_list (map (?f(b := sint (Connections (h b) + 1))) (remdups bs))"
    by (simp add: total_connections_def)
  also have "\<dots> = sum_list (map ?f (remdups bs)) - ?f b + sint (Connections (h b) + 1)"
    using assms(1) by (intro sum_list_map_upd) simp_all
  also have "\<dots> = total_connections h bs + 1"
    using sint_succ32 [OF assms(2)] by (simp add: total_connections_def)
  finally show ?thesis .
qed

lemma LeastConnections_run_total:
  assumes "no_int32_overflow lcb h rs"
    and "LeastConnections_run lcb h rs = (ress, lcb', h')"
  shows "total_connections h' (lcb_backends lcb)
           = total_connections h (lcb_backends lcb) + int (successes ress)
         \<and> lcb' = lcb"
  using assms
proof (induction rs arbitrary: h ress lcb' h')
  case Nil
  then show ?case by (simp add: successes_def)
next
  case (Cons r rs)
  from LeastConnections_select_cases [of h lcb r]
  show ?case
  proof (elim disjE exE conjE)
    assume sel: "LeastConnections_SelectBackend lcb h r = (None, lcb, h)"
    obtain ress1 l1 h1 where run: "LeastConnections_run lcb h rs = (ress1, l1, h1)"
      by (metis prod_cases3)
    have "no_int32_overflow lcb h rs"
      using Cons.prems(1) sel by simp
    from Cons.IH [OF this run] have "total_connections h1 (lcb_backends lcb)
           = total_connections h (lcb_backends lcb) + int (successes ress1)" "l1 = lcb"
      by blast+
    moreover have "ress = None # ress1" "lcb' = l1" "h' = h1"
      using Cons.prems(2) sel run by simp_all
    ultimately show ?thesis by (simp add: successes_def)
  next
    fix b
    assume mem: "b \<in> set (lcb_backends lcb)"
      and sel: "LeastConnections_SelectBackend lcb h r =
            (Some b, lcb, h(b := (h b)\<lparr>Connections := Connections (h b) + 1\<rparr>))"
    let ?h1 = "h(b := (h b)\<lparr>Connections := Connections (h b) + 1\<rparr>)"
    obtain ress1 l1 h2 where run: "LeastConnections_run lcb ?h1 rs = (ress1, l1, h2)"
      by (metis prod_cases3)
    have ok: "Connections (h b) \<noteq> 2147483647" "no_int32_overflow lcb ?h1 rs"
      using Cons.prems(1) sel by simp_all
    from Cons.IH [OF ok(2) run] have "total_connections h2 (lcb_backends lcb)
           = total_connections ?h1 (lcb_backends lcb) + int (successes ress1)" "l1 = lcb"
      by blast+
    moreover have "ress = Some b # ress1" "lcb' = l1" "h' = h2"
      using Cons.prems(2) sel run by simp_all
    moreover have "total_connections ?h1 (lcb_backends lcb)
        = total_connections h (lcb_backends lcb) + 1"
      using mem ok(1) by (rule total_connections_incr)
    ultimately show ?thesis
      by (simp add: successes_def)
  qed
qed

lemma LeastConnections_run_all_succeed:
  assumes "\<exists>b \<in> set (lcb_backends lcb). Alive (h b)"
  shows "successes (fst (LeastConnections_run lcb h rs)) = length rs"
  using assms
proof (induction rs arbitrary: h)
  case Nil
  then show ?case by (simp add: successes_def)
next
  case (Cons r rs)
  have "fst (lc_scan h (lcb_backends lcb) None (- 1)) \<noteq> None"
    using lc_scan_None_iff [of None "- 1" h "lcb_backends lcb"] Cons.prems by simp
  with LeastConnections_select_cases [of h lcb r] obtain b where
    sel: "LeastConnections_SelectBackend lcb h r =
            (Some b, lcb, h(b := (h b)\<lparr>Connections := Connections (h b) + 1\<rparr>))"
    by auto
  let ?h1 = "h(b := (h b)\<lparr>Connections := Connections (h b) + 1\<rparr>)"
  have "\<exists>a \<in> set (lcb_backends lcb). Alive (?h1 a)"
    using Cons.prems by auto
  from Cons.IH [OF this] have IH: "successes (fst (LeastConnections_run lcb ?h1 rs)) = length rs" .
  obtain ress1 l1 h2 where run: "LeastConnections_run lcb ?h1 rs = (ress1, l1, h2)"
    by (metis prod_cases3)
  have "successes ress1 = length rs"
    using IH run by simp
  moreover have "fst (LeastConnections_run lcb h (r # rs)) = Some b # ress1"
    using sel run by simp
  ultimately show ?case
    by (simp add: successes_def)
qed

lemma LeastConnections_round_trip:
  assumes "LeastConnections_SelectBackend lcb h request = (Some b, lcb', h')"
  shows "Connections (h' b) = Connections (h b) + 1 \<and> (\<forall>a. a \<noteq> b \<longrightarrow> h' a = h a)
         \<and> DecrementConnections h' b = h"
proof -
  have h': "h' = h(b := (h b)\<lparr>Connections := Connections (h b) + 1\<rparr>)"
    using LeastConnections_select_cases [of h lcb request] assms by auto
  have "DecrementConnections h' b = h"
    unfolding h' DecrementConnections_def by (rule ext) simp
  then show ?thesis by (simp add: h')
qed

section \<open>IP hash: the client identifier and the fingerprint\<close>

lemma strings_Split_nonempty: "strings_Split s sep \<noteq> []"
  by (induction s) (auto split: list.splits)

lemma getClientIP_returns: "\<exists>ip. getClientIP lib request = Inr ip"
  using strings_Split_nonempty
  by (auto simp: getClientIP_def Let_def split: list.splits option.splits)

lemma IPHash_result_depends:
  assumes "getClientIP lib r1 = getClientIP lib r2"
    and "aliveBackends h1 (ihb_backends i1) = aliveBackends h2 (ihb_backends i2)"
  shows "fst (IPHash_SelectBackend lib i1 h1 r1) = fst (IPHash_SelectBackend lib i2 h2 r2)"
proof (cases "aliveBackends h1 (ihb_backends i1) = []")
  case True
  with assms(2) have "aliveBackends h2 (ihb_backends i2) = []" by simp
  with True show ?thesis
    by (simp add: IPHash_SelectBackend_def Let_def)
next
  case False
  with assms(2) have ne: "aliveBackends h2 (ihb_backends i2) \<noteq> []" by simp
  have "ihb_backends i1 \<noteq> []" "ihb_backends i2 \<noteq> []"
    using False ne by auto
  then show ?thesis
    using assms by (auto simp: IPHash_SelectBackend_def Let_def split: sum.splits)
qed

lemma IPHash_select_sound:
  "(\<forall>b. fst (IPHash_SelectBackend lib ihb h request) = Inr (Some b) \<longrightarrow>
        b \<in> set (ihb_backends ihb) \<and> Alive (h b))
   \<and> (fst (IPHash_SelectBackend lib ihb h request) = Inr None \<longleftrightarrow>
        alive_count h (ihb_backends ihb) = 0)"
  using nth_alive [of _ h "ihb_backends ihb"] getClientIP_returns [of lib request]
  by (auto simp: IPHash_SelectBackend_def Let_def alive_count_aliveBackends split: sum.splits)

lemma IPHash_select_returns:
  assumes "0 < alive_count h (ihb_backends ihb)" and "alive_count h (ihb_backends ihb) < 2 ^ 32"
  shows "\<exists>b. fst (IPHash_SelectBackend lib ihb h request) = Inr (Some b)"
proof -
  let ?alive = "aliveBackends h (ihb_backends ihb)"
  let ?n = "of_nat (length ?alive) :: 32 word"
  obtain ip where ip: "getClientIP lib request = Inr ip"
    using getClientIP_returns by blast
  have len: "0 < length ?alive" "length ?alive < 2 ^ 32"
    using assms by (simp_all add: alive_count_aliveBackends)
  have un: "unat ?n = length ?alive"
    using len(2) by (simp add: unat_of_nat)
  have n0: "?n \<noteq> 0"
    using un len(1) by (metis less_numeral_extra(3) unat_0)
  have bs: "ihb_backends ihb \<noteq> []"
    using len(1) by auto
  have lt: "unat (hashIP lib ip mod ?n) < length ?alive"
    using len(1) by (simp add: unat_mod un)
  show ?thesis
    using ip n0 bs len(1) lt
    by (simp add: IPHash_SelectBackend_def Let_def)
qed

text \<open>
  Every hexadecimal digit that \<^verbatim>\<open>%x\<close> writes is read back by \<^verbatim>\<open>ParseUint\<close> with its
  value, and is not a sign.
\<close>

lemma digitValue_ldigits_conj:
  assumes "k < 16"
  shows "digitValue (ldigits ! k) = Some k \<and> ldigits ! k \<noteq> CHR ''+'' \<and> ldigits ! k \<noteq> CHR ''-''"
proof -
  have "k = 0 \<or> k = 1 \<or> k = 2 \<or> k = 3 \<or> k = 4 \<or> k = 5 \<or> k = 6 \<or> k = 7
      \<or> k = 8 \<or> k = 9 \<or> k = 10 \<or> k = 11 \<or> k = 12 \<or> k = 13 \<or> k = 14 \<or> k = 15"
    using assms by presburger
  then show ?thesis
    by (elim disjE) (simp_all add: digitValue_def ldigits_def)
qed

lemma digitValue_ldigits:
  assumes "k < 16"
  shows "digitValue (ldigits ! k) = Some k"
    and "ldigits ! k \<noteq> CHR ''+''" and "ldigits ! k \<noteq> CHR ''-''"
  using digitValue_ldigits_conj [OF assms] by simp_all

lemma unat_byte_less: "unat (b :: 8 word) < 256"
proof -
  have "unat b < 2 ^ LENGTH(8)" by (rule unsigned_less)
  then show ?thesis by simp
qed

lemma nibbles:
  fixes b :: "8 word"
  shows "unat (drop_bit 4 b) = unat b div 16" and "unat (b AND 15) = unat b mod 16"
proof -
  show "unat (drop_bit 4 b) = unat b div 16"
    by (simp add: unat_drop_bit_eq drop_bit_eq_div unat_div)
  have "b AND 15 = take_bit 4 b"
    by (simp add: take_bit_eq_mask mask_eq_exp_minus_1)
  then show "unat (b AND 15) = unat b mod 16"
    by (simp add: unsigned_take_bit_eq take_bit_eq_mod unat_mod)
qed

lemma fmt_Sprintf_x_Cons:
  "fmt_Sprintf_x (b # bs) = ldigits ! (unat b div 16) # ldigits ! (unat b mod 16) # fmt_Sprintf_x bs"
  by (simp add: fmt_Sprintf_x_def nibbles)

lemma ParseUint16_loop_digit:
  assumes "d < 16" and "n < 2 ^ 60"
  shows "ParseUint16_loop n (ldigits ! d # cs) = ParseUint16_loop (n * 16 + d) cs"
proof -
  have "n * 16 + d < 2 ^ 64" using assms by simp
  moreover have "n * 16 < 2 ^ 64" using assms by simp
  ultimately show ?thesis
    using assms by (simp add: digitValue_ldigits(1) maxUint64_def Let_def)
qed

lemma ParseUint16_loop_byte:
  fixes b :: "8 word"
  assumes "n < 2 ^ 56"
  shows "ParseUint16_loop n (fmt_Sprintf_x (b # bs)) = ParseUint16_loop (n * 256 + unat b) (fmt_Sprintf_x bs)"
proof -
  have hi: "unat b div 16 < 16"
    using unat_byte_less [of b] by simp
  have lo: "unat b mod 16 < 16" by simp
  have n1: "n < 2 ^ 60" using assms by simp
  have n2: "n * 16 + unat b div 16 < 2 ^ 60" using assms hi by simp
  have ar: "(n * 16 + unat b div 16) * 16 + unat b mod 16 = n * 256 + unat b"
    by (simp add: algebra_simps)
  have e1: "ParseUint16_loop n (ldigits ! (unat b div 16) # ldigits ! (unat b mod 16) # fmt_Sprintf_x bs)
      = ParseUint16_loop (n * 16 + unat b div 16) (ldigits ! (unat b mod 16) # fmt_Sprintf_x bs)"
    by (rule ParseUint16_loop_digit [OF hi n1])
  have e2: "ParseUint16_loop (n * 16 + unat b div 16) (ldigits ! (unat b mod 16) # fmt_Sprintf_x bs)
      = ParseUint16_loop ((n * 16 + unat b div 16) * 16 + unat b mod 16) (fmt_Sprintf_x bs)"
    by (rule ParseUint16_loop_digit [OF lo n2])
  show ?thesis
    by (simp only: fmt_Sprintf_x_Cons e1 e2 ar)
qed

lemma ParseUint16_four_bytes:
  fixes b0 b1 b2 b3 :: "8 word"
  shows "ParseUint16_loop 0 (fmt_Sprintf_x [b0, b1, b2, b3]) =
    Inr (unat b0 * 2 ^ 24 + unat b1 * 2 ^ 16 + unat b2 * 2 ^ 8 + unat b3)"
proof -
  have b: "unat b0 < 256" "unat b1 < 256" "unat b2 < 256" "unat b3 < 256"
    by (rule unat_byte_less)+
  have s1: "ParseUint16_loop 0 (fmt_Sprintf_x [b0, b1, b2, b3])
      = ParseUint16_loop (unat b0) (fmt_Sprintf_x [b1, b2, b3])"
    using ParseUint16_loop_byte [of 0 b0 "[b1, b2, b3]"] by simp
  have s2: "ParseUint16_loop (unat b0) (fmt_Sprintf_x [b1, b2, b3])
      = ParseUint16_loop (unat b0 * 256 + unat b1) (fmt_Sprintf_x [b2, b3])"
    using b by (intro ParseUint16_loop_byte) simp
  have s3: "ParseUint16_loop (unat b0 * 256 + unat b1) (fmt_Sprintf_x [b2, b3])
      = ParseUint16_loop ((unat b0 * 256 + unat b1) * 256 + unat b2) (fmt_Sprintf_x [b3])"
    using b by (intro ParseUint16_loop_byte) simp
  have s4: "ParseUint16_loop ((unat b0 * 256 + unat b1) * 256 + unat b2) (fmt_Sprintf_x [b3])
      = ParseUint16_loop (((unat b0 * 256 + unat b1) * 256 + unat b2) * 256 + unat b3) (fmt_Sprintf_x [])"
    using b by (intro ParseUint16_loop_byte) simp
  have "fmt_Sprintf_x [] = []" by (simp add: fmt_Sprintf_x_def)
  then show ?thesis
    using s1 s2 s3 s4 by (simp add: algebra_simps)
qed

lemma strconv_ParseInt16_four_bytes:
  fixes b0 b1 b2 b3 :: "8 word"
  shows "strconv_ParseInt16 (fmt_Sprintf_x [b0, b1, b2, b3]) =
    Inr (int (unat b0 * 2 ^ 24 + unat b1 * 2 ^ 16 + unat b2 * 2 ^ 8 + unat b3))"
proof -
  let ?v = "unat b0 * 2 ^ 24 + unat b1 * 2 ^ 16 + unat b2 * 2 ^ 8 + unat b3"
  have b: "unat b0 < 256" "unat b1 < 256" "unat b2 < 256" "unat b3 < 256"
    by (rule unat_byte_less)+
  have v: "?v < 2 ^ 63" using b by simp
  have hi: "unat b0 div 16 < 16" using b by simp
  obtain cs where s: "fmt_Sprintf_x [b0, b1, b2, b3] = ldigits ! (unat b0 div 16) # cs"
    by (simp add: fmt_Sprintf_x_Cons)
  have u: "strconv_ParseUint16 (ldigits ! (unat b0 div 16) # cs) = Inr ?v"
    using ParseUint16_four_bytes [of b0 b1 b2 b3] s by (simp add: strconv_ParseUint16_def)
  show ?thesis
    unfolding s using u v digitValue_ldigits(2,3) [OF hi]
    by (simp add: strconv_ParseInt16_def Let_def)
qed

lemma md5_first_four:
  "map (md5_Sum lib ip) [0..<4] = [md5_Sum lib ip 0, md5_Sum lib ip 1, md5_Sum lib ip 2, md5_Sum lib ip 3]"
  by (simp add: upt_rec numeral_eq_Suc)

lemma uint_BigEndian_Uint32:
  "uint (BigEndian_Uint32 b0 b1 b2 b3)
     = int (unat b0 * 2 ^ 24 + unat b1 * 2 ^ 16 + unat b2 * 2 ^ 8 + unat b3)"
proof -
  let ?v = "unat b0 * 2 ^ 24 + unat b1 * 2 ^ 16 + unat b2 * 2 ^ 8 + unat b3"
  have b: "unat b0 < 256" "unat b1 < 256" "unat b2 < 256" "unat b3 < 256"
    by (rule unat_byte_less)+
  have v: "?v < 2 ^ 32" using b by simp
  have "unat (of_nat ?v :: 32 word) = ?v"
    by (rule of_nat_inverse [OF refl]) (use v in simp)
  then show ?thesis
    unfolding BigEndian_Uint32_def by (metis uint_nat)
qed

lemma hashIP_value:
  "hashIP lib ip = BigEndian_Uint32 (md5_Sum lib ip 0) (md5_Sum lib ip 1)
                     (md5_Sum lib ip 2) (md5_Sum lib ip 3)"
proof -
  let ?d = "md5_Sum lib ip"
  have "strconv_ParseInt16 (fmt_Sprintf_x (map ?d [0..<4]))
      = Inr (int (unat (?d 0) * 2 ^ 24 + unat (?d 1) * 2 ^ 16 + unat (?d 2) * 2 ^ 8 + unat (?d 3)))"
    unfolding md5_first_four by (rule strconv_ParseInt16_four_bytes)
  then show ?thesis
    by (simp add: hashIP_def Let_def BigEndian_Uint32_def)
qed

lemma hashIP_eval_lib: "hashIP eval_lib ip = 0xd41d8cd9"
  by (simp add: hashIP_value eval_lib_def md5_empty_def BigEndian_Uint32_def)

section \<open>The claims\<close>

text \<open>
  C1. For each of the three strategies, with \<open>k\<close> of the registry's backends alive:
  a backend that SelectBackend returns is in the registry and is alive in the store the
  call read, and the call returns \<^verbatim>\<open>nil\<close> if and only if \<open>k = 0\<close>. Least-connections
  always returns; round-robin and IP-hash return a backend whenever \<open>0 < k\<close> and \<open>k\<close> fits
  the unsigned type the remainder is taken in (\<open>k < 2 ^ 64\<close>, which every Go slice
  satisfies, and \<open>k < 2 ^ 32\<close>).
\<close>

theorem C1_select_returns_alive_or_none:
  "(\<forall>b. fst (RoundRobin_SelectBackend rb h request) = Inr (Some b) \<longrightarrow>
        b \<in> set (rb_backends rb) \<and> Alive (h b))
   \<and> (fst (RoundRobin_SelectBackend rb h request) = Inr None \<longleftrightarrow>
        alive_count h (rb_backends rb) = 0)
   \<and> (0 < alive_count h (rb_backends rb) \<and> alive_count h (rb_backends rb) < 2 ^ 64 \<longrightarrow>
        (\<exists>b. fst (RoundRobin_SelectBackend rb h request) = Inr (Some b)))
   \<and> (\<forall>b. fst (LeastConnections_SelectBackend lcb h request) = Some b \<longrightarrow>
        b \<in> set (lcb_backends lcb) \<and> Alive (h b))
   \<and> (fst (LeastConnections_SelectBackend lcb h request) = None \<longleftrightarrow>
        alive_count h (lcb_backends lcb) = 0)
   \<and> (\<forall>b. fst (IPHash_SelectBackend lib ihb h request) = Inr (Some b) \<longrightarrow>
        b \<in> set (ihb_backends ihb) \<and> Alive (h b))
   \<and> (fst (IPHash_SelectBackend lib ihb h request) = Inr None \<longleftrightarrow>
        alive_count h (ihb_backends ihb) = 0)
   \<and> (0 < alive_count h (ihb_backends ihb) \<and> alive_count h (ihb_backends ihb) < 2 ^ 32 \<longrightarrow>
        (\<exists>b. fst (IPHash_SelectBackend lib ihb h request) = Inr (Some b)))"
  using RoundRobin_select_sound [of rb h request] RoundRobin_select_returns [of h rb request]
    LeastConnections_select_sound [of lcb h request]
    IPHash_select_sound [of lib ihb h request] IPHash_select_returns [of h ihb lib request]
  by blast

theorem C1_select_witness:
  "alive_count fresh_heap [0, 1, 2] = 3
   \<and> fst (RoundRobin_SelectBackend (three_added 0 1 2) fresh_heap plain_request) = Inr (Some 1)
   \<and> fst (LeastConnections_SelectBackend \<lparr>lcb_backends = [0, 1, 2]\<rparr> fresh_heap plain_request) = Some 0
   \<and> fst (IPHash_SelectBackend eval_lib \<lparr>ihb_backends = [0, 1, 2]\<rparr> fresh_heap plain_request)
       = Inr (Some 1)
   \<and> alive_count dead_heap [0, 1, 2] = 0
   \<and> fst (RoundRobin_SelectBackend (three_added 0 1 2) dead_heap plain_request)
       = Inr None
   \<and> fst (LeastConnections_SelectBackend \<lparr>lcb_backends = [0, 1, 2]\<rparr>
        dead_heap plain_request) = None
   \<and> fst (IPHash_SelectBackend eval_lib \<lparr>ihb_backends = [0, 1, 2]\<rparr>
        dead_heap plain_request) = Inr None"
proof -
  have k3: "alive_count fresh_heap [0, 1, 2] = 3"
    by (simp add: alive_count_def fresh_heap_def fresh_def)
  have k0: "alive_count dead_heap [0, 1, 2] = 0"
    by (simp add: alive_count_def dead_heap_def)
  have bs: "rb_backends (three_added 0 1 2) = [0, 1, 2]"
    by (simp add: three_added_def NewRoundRobinBalancer_def RoundRobin_AddBackend_def)
  have rr: "fst (RoundRobin_SelectBackend (three_added 0 1 2) fresh_heap plain_request) = Inr (Some 1)"
    by (simp add: three_added_def NewRoundRobinBalancer_def RoundRobin_AddBackend_def
        RoundRobin_SelectBackend_def Let_def fresh_heap_def fresh_def)
  have lc: "fst (LeastConnections_SelectBackend \<lparr>lcb_backends = [0, 1, 2]\<rparr> fresh_heap plain_request) = Some 0"
    by (simp add: LeastConnections_SelectBackend_def Let_def fresh_heap_def fresh_def)
  have ip: "getClientIP eval_lib plain_request = Inr []"
    by (simp add: getClientIP_def Header_Get_def plain_request_def eval_lib_def)
  have ih: "fst (IPHash_SelectBackend eval_lib \<lparr>ihb_backends = [0, 1, 2]\<rparr> fresh_heap plain_request)
       = Inr (Some 1)"
    by (simp add: IPHash_SelectBackend_def Let_def fresh_heap_def fresh_def ip hashIP_eval_lib)
  show ?thesis
    using k3 k0 bs rr lc ih
      C1_select_returns_alive_or_none [of "three_added 0 1 2" fresh_heap
        plain_request "\<lparr>lcb_backends = [0, 1, 2]\<rparr>" eval_lib "\<lparr>ihb_backends = [0, 1, 2]\<rparr>"]
      C1_select_returns_alive_or_none [of "three_added 0 1 2" dead_heap
        plain_request "\<lparr>lcb_backends = [0, 1, 2]\<rparr>" eval_lib "\<lparr>ihb_backends = [0, 1, 2]\<rparr>"]
    by simp
qed

text \<open>
  C2, as amended. Least-connections: over a run of selections with no completions in
  which no increment overflows \<^verbatim>\<open>int32\<close>, the sum of the backends' connection counts
  grows by the number of selections that returned a backend, which is every selection of
  the run when some backend is alive. A selection that returns a backend adds 1 (in
  32-bit arithmetic) to that backend's count and changes nothing else, and the paired
  DecrementConnections restores the store as it was before the selection.
\<close>

theorem C2_connection_count_bookkeeping:
  "(no_int32_overflow lcb h rs \<longrightarrow>
      (case LeastConnections_run lcb h rs of (ress, lcb', h') \<Rightarrow>
         total_connections h' (lcb_backends lcb)
           = total_connections h (lcb_backends lcb) + int (successes ress)
         \<and> ((\<exists>b \<in> set (lcb_backends lcb). Alive (h b)) \<longrightarrow> successes ress = length rs)))
   \<and> (\<forall>b lcb' h'. LeastConnections_SelectBackend lcb h request = (Some b, lcb', h') \<longrightarrow>
         Connections (h' b) = Connections (h b) + 1 \<and> (\<forall>a. a \<noteq> b \<longrightarrow> h' a = h a)
         \<and> DecrementConnections h' b = h)"
proof -
  obtain ress l1 h1 where run: "LeastConnections_run lcb h rs = (ress, l1, h1)"
    by (metis prod_cases3)
  have "no_int32_overflow lcb h rs \<Longrightarrow> total_connections h1 (lcb_backends lcb)
           = total_connections h (lcb_backends lcb) + int (successes ress)"
    using LeastConnections_run_total [OF _ run] by simp
  moreover have "\<exists>b \<in> set (lcb_backends lcb). Alive (h b) \<Longrightarrow> successes ress = length rs"
    using LeastConnections_run_all_succeed [of lcb h rs] run by simp
  ultimately show ?thesis
    using run LeastConnections_round_trip [of lcb h request] by simp
qed

theorem C2_bookkeeping_witness:
  "no_int32_overflow \<lparr>lcb_backends = [0, 1, 2]\<rparr> fresh_heap [plain_request, plain_request, plain_request]
   \<and> fst (LeastConnections_run \<lparr>lcb_backends = [0, 1, 2]\<rparr> fresh_heap
        [plain_request, plain_request, plain_request]) = [Some 0, Some 1, Some 2]
   \<and> total_connections fresh_heap [0, 1, 2] = 0
   \<and> total_connections (snd (snd (LeastConnections_run \<lparr>lcb_backends = [0, 1, 2]\<rparr> fresh_heap
        [plain_request, plain_request, plain_request]))) [0, 1, 2] = 3"
proof -
  have ev: "LeastConnections_run \<lparr>lcb_backends = [0, 1, 2]\<rparr> fresh_heap
        [plain_request, plain_request, plain_request]
      = ([Some 0, Some 1, Some 2], \<lparr>lcb_backends = [0, 1, 2]\<rparr>,
         fresh_heap(0 := fresh\<lparr>Connections := 1\<rparr>, 1 := fresh\<lparr>Connections := 1\<rparr>,
                    2 := fresh\<lparr>Connections := 1\<rparr>))"
    by (simp add: LeastConnections_SelectBackend_def fresh_heap_def fresh_def Let_def)
  have ok: "no_int32_overflow \<lparr>lcb_backends = [0, 1, 2]\<rparr> fresh_heap
        [plain_request, plain_request, plain_request]"
    by (simp add: LeastConnections_SelectBackend_def fresh_heap_def fresh_def Let_def)
  have t0: "total_connections fresh_heap [0, 1, 2] = 0"
    by (simp add: total_connections_def fresh_heap_def fresh_def)
  show ?thesis
    using ok t0 ev
      C2_connection_count_bookkeeping [of "\<lparr>lcb_backends = [0, 1, 2]\<rparr>" fresh_heap
        "[plain_request, plain_request, plain_request]" plain_request]
    by (simp add: successes_def)
qed

text \<open>
  C2 as stated fails where an increment overflows: one alive backend with the count
  \<open>2 ^ 31 - 1\<close>. The selection returns it and the sum of the counts goes from
  2147483647 to -2147483648.
\<close>

theorem C2_overflow_counterexample:
  "fst (LeastConnections_SelectBackend \<lparr>lcb_backends = [0]\<rparr> (count_heap 2147483647 0 0) plain_request)
     = Some 0
   \<and> total_connections (count_heap 2147483647 0 0) [0] = 2147483647
   \<and> total_connections (snd (snd (LeastConnections_SelectBackend \<lparr>lcb_backends = [0]\<rparr>
        (count_heap 2147483647 0 0) plain_request))) [0] = - 2147483648"
  by (simp add: LeastConnections_SelectBackend_def total_connections_def count_heap_def
      fresh_heap_def fresh_def Let_def)

text \<open>
  C3, as amended. The claim has the first two calls on a fresh round-robin balancer with
  three alive backends return backend[0] and backend[1]. The cursor is incremented before
  it is used, so the first call returns backend[1] and the second backend[2].
\<close>

theorem C3_first_calls_return_second_and_third:
  assumes "Alive (h b0)" and "Alive (h b1)" and "Alive (h b2)"
  shows "fst (RoundRobin_run (three_added b0 b1 b2) h [r1, r2]) = [Inr (Some b1), Inr (Some b2)]"
  using assms
  by (simp add: three_added_def NewRoundRobinBalancer_def RoundRobin_AddBackend_def
      RoundRobin_SelectBackend_def Let_def)

theorem C3_first_calls_witness:
  "Alive (fresh_heap 0) \<and> Alive (fresh_heap 1) \<and> Alive (fresh_heap 2)
   \<and> fst (RoundRobin_run (three_added 0 1 2) fresh_heap [plain_request, plain_request])
     = [Inr (Some 1), Inr (Some 2)]"
proof -
  have a: "Alive (fresh_heap b)" for b
    by (simp add: fresh_heap_def fresh_def)
  show ?thesis
    using a C3_first_calls_return_second_and_third [of fresh_heap 0 1 2 plain_request plain_request]
    by simp
qed

text \<open>
  C3 as stated fails: with the three backends at the addresses 0, 1 and 2, all alive and
  the cursor at its initial value, the two calls do not return backend[0] and backend[1].
\<close>

theorem C3_first_calls_counterexample:
  "Alive (fresh_heap 0) \<and> Alive (fresh_heap 1) \<and> Alive (fresh_heap 2)
   \<and> rb_current (three_added 0 1 2) = 0
   \<and> fst (RoundRobin_run (three_added 0 1 2) fresh_heap [plain_request, plain_request])
     \<noteq> [Inr (Some 0), Inr (Some 1)]"
  by (simp add: three_added_def NewRoundRobinBalancer_def RoundRobin_AddBackend_def
      RoundRobin_SelectBackend_def Let_def fresh_heap_def fresh_def)

text \<open>
  C4, as amended. Round-robin over a fixed alive set of size \<open>k \<ge> 1\<close> (a Go slice, so
  \<open>k < 2 ^ 64\<close>): as long as the 64-bit cursor does not wrap around during the \<open>k\<close> calls,
  or \<open>k\<close> divides \<open>2 ^ 64\<close>, the calls return the alive list rotated by the offset
  (cursor + 1) mod \<open>k\<close>. So every alive backend is visited, any two such runs differ
  only by that offset, and the run leaves the cursor \<open>k\<close> higher and the backends as they
  were.
\<close>

theorem C4_k_calls_are_a_rotation:
  assumes "alive = aliveBackends h (rb_backends rb)"
    and "k = length alive" and "1 \<le> k" and "k < 2 ^ 64" and "length rs = k"
    and "unat (rb_current rb) + k < 2 ^ 64 \<or> k dvd 2 ^ 64"
  shows "RoundRobin_run rb h rs =
           (map (\<lambda>b. Inr (Some b)) (rotate ((unat (rb_current rb) + 1) mod k) alive),
            rb\<lparr>rb_current := rb_current rb + of_nat k\<rparr>, h)
         \<and> (\<forall>b \<in> set alive. Inr (Some b) \<in> set (fst (RoundRobin_run rb h rs)))"
proof -
  have pos: "0 < length (aliveBackends h (rb_backends rb))"
    using assms(1-3) by (simp add: Suc_le_eq)
  have small: "length (aliveBackends h (rb_backends rb)) < 2 ^ 64"
    using assms(1,2,4) by simp
  have run: "RoundRobin_run rb h rs =
      (map (\<lambda>i. Inr (Some (alive ! (unat (rb_current rb + 1 + of_nat i) mod k)))) [0..<k],
       rb\<lparr>rb_current := rb_current rb + of_nat k\<rparr>, h)"
    using RoundRobin_run_cursor [OF pos small, of rs] assms(1,2,5) by simp
  have idx: "unat (rb_current rb + 1 + of_nat i) mod k = (unat (rb_current rb) + 1 + i) mod k"
    if "i < k" for i
    using assms(6) that by (intro cursor_index) auto
  have "map (\<lambda>i. Inr (Some (alive ! (unat (rb_current rb + 1 + of_nat i) mod k)))) [0..<k]
      = map (\<lambda>i. Inr (Some (alive ! ((unat (rb_current rb) + 1 + i) mod k)))) [0..<k]"
    by (rule map_cong) (simp_all add: idx)
  also have "\<dots> = map (\<lambda>b. Inr (Some b))
      (map (\<lambda>i. alive ! ((unat (rb_current rb) + 1 + i) mod k)) [0..<k])"
    by (simp add: o_def)
  also have "map (\<lambda>i. alive ! ((unat (rb_current rb) + 1 + i) mod k)) [0..<k]
      = rotate ((unat (rb_current rb) + 1) mod k) alive"
    unfolding assms(2) using pos assms(1) by (intro rotate_as_map) simp
  finally have rot: "RoundRobin_run rb h rs =
           (map (\<lambda>b. Inr (Some b)) (rotate ((unat (rb_current rb) + 1) mod k) alive),
            rb\<lparr>rb_current := rb_current rb + of_nat k\<rparr>, h)"
    using run by simp
  have "\<forall>b \<in> set alive. Inr (Some b) \<in> set (fst (RoundRobin_run rb h rs))"
    by (simp add: rot)
  with rot show ?thesis by blast
qed

theorem C4_k_calls_witness:
  "RoundRobin_run (three_added 0 1 2) fresh_heap [plain_request, plain_request, plain_request] =
     ([Inr (Some 1), Inr (Some 2), Inr (Some 0)],
      (three_added 0 1 2)\<lparr>rb_current := 3\<rparr>, fresh_heap)
   \<and> fst (RoundRobin_run near_wrap4 fresh_heap
        [plain_request, plain_request, plain_request, plain_request]) =
     [Inr (Some 3), Inr (Some 0), Inr (Some 1), Inr (Some 2)]"
proof -
  have al: "[0, 1, 2] = aliveBackends fresh_heap (rb_backends (three_added 0 1 2))"
    by (simp add: three_added_def NewRoundRobinBalancer_def RoundRobin_AddBackend_def
        fresh_heap_def fresh_def)
  have cur: "rb_current (three_added 0 1 2) = 0"
    by (simp add: three_added_def NewRoundRobinBalancer_def RoundRobin_AddBackend_def)
  have "RoundRobin_run (three_added 0 1 2) fresh_heap [plain_request, plain_request, plain_request] =
     (map (\<lambda>b. Inr (Some b)) (rotate ((unat (rb_current (three_added 0 1 2)) + 1) mod 3) [0, 1, 2]),
      (three_added 0 1 2)\<lparr>rb_current := rb_current (three_added 0 1 2) + of_nat 3\<rparr>, fresh_heap)"
    by (rule C4_k_calls_are_a_rotation [OF al, THEN conjunct1])
      (simp_all add: three_added_def NewRoundRobinBalancer_def RoundRobin_AddBackend_def)
  then have first: "RoundRobin_run (three_added 0 1 2) fresh_heap
        [plain_request, plain_request, plain_request] =
     ([Inr (Some 1), Inr (Some 2), Inr (Some 0)],
      (three_added 0 1 2)\<lparr>rb_current := 3\<rparr>, fresh_heap)"
    unfolding cur by (simp add: rotate1_def)
  have al4: "[0, 1, 2, 3] = aliveBackends fresh_heap (rb_backends near_wrap4)"
    by (simp add: near_wrap4_def fresh_heap_def fresh_def)
  have "RoundRobin_run near_wrap4 fresh_heap
        [plain_request, plain_request, plain_request, plain_request] =
     (map (\<lambda>b. Inr (Some b)) (rotate ((unat (rb_current near_wrap4) + 1) mod 4) [0, 1, 2, 3]),
      near_wrap4\<lparr>rb_current := rb_current near_wrap4 + of_nat 4\<rparr>, fresh_heap)"
    by (rule C4_k_calls_are_a_rotation [OF al4, THEN conjunct1]) simp_all
  then have "fst (RoundRobin_run near_wrap4 fresh_heap
        [plain_request, plain_request, plain_request, plain_request]) =
     [Inr (Some 3), Inr (Some 0), Inr (Some 1), Inr (Some 2)]"
    by (simp add: near_wrap4_def rotate1_def numeral_3_eq_3)
  with first show ?thesis by simp
qed

text \<open>
  C4 as stated fails where the cursor wraps: three alive backends and the cursor at
  \<open>2 ^ 64 - 2\<close>. The three calls use the cursor values \<open>2 ^ 64 - 1\<close>, 0 and 1, whose
  remainders by 3 are 0, 0 and 1: backend 0 is returned twice and backend 2 is not
  visited.
\<close>

theorem C4_k_calls_counterexample:
  "aliveBackends fresh_heap (rb_backends near_wrap) = [0, 1, 2]
   \<and> fst (RoundRobin_run near_wrap fresh_heap [plain_request, plain_request, plain_request])
     = [Inr (Some 0), Inr (Some 0), Inr (Some 1)]
   \<and> Inr (Some 2) \<notin> set (fst (RoundRobin_run near_wrap fresh_heap
        [plain_request, plain_request, plain_request]))"
  by (simp add: near_wrap_def RoundRobin_SelectBackend_def Let_def fresh_heap_def fresh_def)

text \<open>
  C5. IP-hash: two calls whose requests derive the same client identifier, against
  registries with the same alive list, return the same backend; in particular the second
  of two consecutive calls returns what the first returned.
\<close>

theorem C5_ip_hash_deterministic:
  assumes "getClientIP lib r1 = getClientIP lib r2"
    and "aliveBackends h1 (ihb_backends i1) = aliveBackends h2 (ihb_backends i2)"
  shows "fst (IPHash_SelectBackend lib i1 h1 r1) = fst (IPHash_SelectBackend lib i2 h2 r2)
       \<and> (case IPHash_SelectBackend lib i1 h1 r1 of (res, i', h') \<Rightarrow>
            fst (IPHash_SelectBackend lib i' h' r2) = res)"
proof -
  have frame: "snd (IPHash_SelectBackend lib i1 h1 r1) = (i1, h1)"
    by (auto simp: IPHash_SelectBackend_def Let_def split: sum.splits)
  have "fst (IPHash_SelectBackend lib i1 h1 r2) = fst (IPHash_SelectBackend lib i1 h1 r1)"
    using IPHash_result_depends [of lib r2 r1 h1 i1 h1 i1] assms(1) by simp
  then have "case IPHash_SelectBackend lib i1 h1 r1 of (res, i', h') \<Rightarrow>
            fst (IPHash_SelectBackend lib i' h' r2) = res"
    using frame by (cases "IPHash_SelectBackend lib i1 h1 r1") simp
  then show ?thesis
    using IPHash_result_depends [OF assms] by simp
qed

theorem C5_ip_hash_witness:
  "getClientIP eval_lib forwarded_request = Inr ''10.0.0.1''
   \<and> getClientIP eval_lib real_ip_request = Inr ''10.0.0.1''
   \<and> fst (IPHash_SelectBackend eval_lib \<lparr>ihb_backends = [0, 1, 2]\<rparr> fresh_heap forwarded_request)
     = fst (IPHash_SelectBackend eval_lib \<lparr>ihb_backends = [0, 1, 2]\<rparr> fresh_heap real_ip_request)"
proof -
  have a: "getClientIP eval_lib forwarded_request = Inr ''10.0.0.1''"
    by (simp add: getClientIP_def Header_Get_def forwarded_request_def eval_lib_def)
  have b: "getClientIP eval_lib real_ip_request = Inr ''10.0.0.1''"
    by (simp add: getClientIP_def Header_Get_def real_ip_request_def eval_lib_def)
  have c: "getClientIP eval_lib forwarded_request = getClientIP eval_lib real_ip_request"
    using a b by simp
  show ?thesis
    using a b C5_ip_hash_deterministic [OF c refl, of "\<lparr>ihb_backends = [0, 1, 2]\<rparr>" fresh_heap]
    by simp
qed

text \<open>
  C6, as amended. When the probe request is sent, CheckHealth returns true exactly for a
  response with a status code from 200 to 299; it then adds 1 to the success counter
  and leaves the error counter, and on a failed request or any other status code it adds
  1 to the error counter and leaves the success counter. When the probe request cannot be
  constructed, CheckHealth returns false and changes no counter.
\<close>

theorem C6_issued_probe_counts_once:
  "CheckHealth h b NewRequestError = (False, h)
   \<and> (probe \<noteq> NewRequestError \<longrightarrow>
       (case CheckHealth h b probe of (healthy, h') \<Rightarrow>
          (healthy \<longleftrightarrow> (\<exists>sc. probe = Response sc \<and> 200 \<le> sc \<and> sc < 300))
          \<and> (healthy \<longrightarrow> h' = h(b := (h b)\<lparr>SuccessCount := SuccessCount (h b) + 1\<rparr>)
                \<and> SuccessCount (h' b) = SuccessCount (h b) + 1
                \<and> ErrorCount (h' b) = ErrorCount (h b))
          \<and> (\<not> healthy \<longrightarrow> h' = h(b := (h b)\<lparr>ErrorCount := ErrorCount (h b) + 1\<rparr>)
                \<and> ErrorCount (h' b) = ErrorCount (h b) + 1
                \<and> SuccessCount (h' b) = SuccessCount (h b))))"
  proof (cases probe)
  case NewRequestError
  then show ?thesis by simp
next
  case DoError
  then show ?thesis by simp
next
  case (Response sc)
  show ?thesis
  proof (cases "200 \<le> sc \<and> sc < 300")
    case True
    with Response show ?thesis by simp
  next
    case False
    with Response show ?thesis by auto
  qed
qed

theorem C6_issued_probe_witness:
  "CheckHealth fresh_heap 0 (Response 200) = (True, fresh_heap(0 := fresh\<lparr>SuccessCount := 1\<rparr>))
   \<and> CheckHealth fresh_heap 0 (Response 503) = (False, fresh_heap(0 := fresh\<lparr>ErrorCount := 1\<rparr>))
   \<and> CheckHealth fresh_heap 0 DoError = (False, fresh_heap(0 := fresh\<lparr>ErrorCount := 1\<rparr>))"
  using C6_issued_probe_counts_once [of fresh_heap 0 "Response 200"]
    C6_issued_probe_counts_once [of fresh_heap 0 "Response 503"]
    C6_issued_probe_counts_once [of fresh_heap 0 DoError]
  by (simp add: fresh_heap_def fresh_def)

text \<open>
  C6 as stated fails for a probe whose request cannot be constructed: CheckHealth
  returns false and the error counter is not incremented.
\<close>

theorem C6_unissued_probe_counterexample:
  "fst (CheckHealth fresh_heap 0 NewRequestError) = False
   \<and> ErrorCount (snd (CheckHealth fresh_heap 0 NewRequestError) 0) \<noteq> ErrorCount (fresh_heap 0) + 1"
  by (simp add: fresh_heap_def fresh_def)

text \<open>
  C7, as amended. Least-connections, with at least one backend alive and no alive backend
  at the count -1: SelectBackend returns an alive backend of the registry such that
  every alive backend before it has a larger count and every alive backend after it has
  a count at least as large, that is the first alive backend with the minimum count.
\<close>

theorem C7_least_connections_first_minimum:
  assumes "\<exists>b \<in> set (lcb_backends lcb). Alive (h b)"
    and "\<forall>b \<in> set (lcb_backends lcb). Alive (h b) \<longrightarrow> Connections (h b) \<noteq> - 1"
  shows "\<exists>ys b zs. lcb_backends lcb = ys @ b # zs \<and> Alive (h b)
          \<and> fst (LeastConnections_SelectBackend lcb h request) = Some b
          \<and> (\<forall>y \<in> set ys. Alive (h y) \<longrightarrow> sint (Connections (h b)) < sint (Connections (h y)))
          \<and> (\<forall>z \<in> set zs. Alive (h z) \<longrightarrow> sint (Connections (h b)) \<le> sint (Connections (h z)))"
proof -
  from lc_scan_start [OF assms] obtain ys b zs where d:
    "lcb_backends lcb = ys @ b # zs" "Alive (h b)"
    "fst (lc_scan h (lcb_backends lcb) None (- 1)) = Some b"
    "\<forall>y \<in> set ys. Alive (h y) \<longrightarrow> sint (Connections (h b)) < sint (Connections (h y))"
    "\<forall>z \<in> set zs. Alive (h z) \<longrightarrow> sint (Connections (h b)) \<le> sint (Connections (h z))"
    by blast
  have "fst (LeastConnections_SelectBackend lcb h request) = Some b"
    using LeastConnections_select_cases [of h lcb request] d(3) by auto
  with d show ?thesis by blast
qed

theorem C7_first_minimum_witness:
  "fst (LeastConnections_SelectBackend \<lparr>lcb_backends = [0, 1, 2]\<rparr> (count_heap 2 1 1) plain_request)
     = Some 1
   \<and> (\<exists>ys b zs. [0, 1, 2] = ys @ b # zs \<and> Alive (count_heap 2 1 1 b)
        \<and> fst (LeastConnections_SelectBackend \<lparr>lcb_backends = [0, 1, 2]\<rparr> (count_heap 2 1 1) plain_request) = Some b
        \<and> (\<forall>y \<in> set ys. Alive (count_heap 2 1 1 y) \<longrightarrow>
              sint (Connections (count_heap 2 1 1 b)) < sint (Connections (count_heap 2 1 1 y)))
        \<and> (\<forall>z \<in> set zs. Alive (count_heap 2 1 1 z) \<longrightarrow>
              sint (Connections (count_heap 2 1 1 b)) \<le> sint (Connections (count_heap 2 1 1 z))))"
proof -
  have a: "\<exists>b \<in> set (lcb_backends \<lparr>lcb_backends = [0, 1, 2]\<rparr>). Alive (count_heap 2 1 1 b)"
    by (simp add: count_heap_def fresh_heap_def fresh_def)
  have b: "\<forall>b \<in> set (lcb_backends \<lparr>lcb_backends = [0, 1, 2]\<rparr>).
      Alive (count_heap 2 1 1 b) \<longrightarrow> Connections (count_heap 2 1 1 b) \<noteq> - 1"
    by (simp add: count_heap_def fresh_heap_def fresh_def)
  have c: "fst (LeastConnections_SelectBackend \<lparr>lcb_backends = [0, 1, 2]\<rparr> (count_heap 2 1 1) plain_request) = Some 1"
    by (simp add: LeastConnections_SelectBackend_def count_heap_def fresh_heap_def fresh_def Let_def)
  show ?thesis
    using c C7_least_connections_first_minimum [OF a b, of plain_request] by simp
qed

text \<open>
  C7 as stated fails where an alive backend has the count -1, the value the scan uses
  for "nothing selected yet": with the counts -1 and 5 the second backend is returned.
\<close>

theorem C7_sentinel_counterexample:
  "Alive (count_heap (- 1) 5 5 0) \<and> Alive (count_heap (- 1) 5 5 1)
   \<and> sint (Connections (count_heap (- 1) 5 5 0)) < sint (Connections (count_heap (- 1) 5 5 1))
   \<and> fst (LeastConnections_SelectBackend \<lparr>lcb_backends = [0, 1]\<rparr> (count_heap (- 1) 5 5) plain_request)
       = Some 1"
  by (simp add: LeastConnections_SelectBackend_def count_heap_def fresh_heap_def fresh_def Let_def)

text \<open>
  C8. validateConfig returns an error if and only if the backend list is empty, or the
  algorithm is not one of round-robin, least-connections and ip-hash, or the
  health-check interval is not positive, or the health-check timeout is not positive;
  and \<^verbatim>\<open>main\<close> ends the process at this check exactly when it does.
\<close>

theorem C8_validateConfig_fails_iff:
  "(validateConfig config \<noteq> None \<longleftrightarrow>
      (Backends config = []
       \<or> Algorithm config \<notin> {''round-robin'', ''least-connections'', ''ip-hash''}
       \<or> sint (HealthCheckInterval config) \<le> 0
       \<or> sint (HealthCheckTimeout config) \<le> 0))
   \<and> (validateConfig config \<noteq> None \<longleftrightarrow> (\<exists>err. main_startup config = Fatal err))"
proof -
  have "validateConfig config \<noteq> None \<longleftrightarrow>
      (Backends config = []
       \<or> Algorithm config \<notin> {''round-robin'', ''least-connections'', ''ip-hash''}
       \<or> sint (HealthCheckInterval config) \<le> 0
       \<or> sint (HealthCheckTimeout config) \<le> 0)"
    by (simp add: validateConfig_def map_index_def validAlgorithms_def)
  moreover have "validateConfig config \<noteq> None \<longleftrightarrow> (\<exists>err. main_startup config = Fatal err)"
    by (cases "validateConfig config") (simp_all add: main_startup_def)
  ultimately show ?thesis by blast
qed

theorem C8_validateConfig_witness:
  "validateConfig valid_config = None
   \<and> main_startup valid_config = Continues
   \<and> validateConfig (valid_config\<lparr>Backends := []\<rparr>) \<noteq> None
   \<and> validateConfig (valid_config\<lparr>Algorithm := ''random''\<rparr>) \<noteq> None
   \<and> validateConfig (valid_config\<lparr>HealthCheckInterval := - 1\<rparr>) \<noteq> None
   \<and> validateConfig (valid_config\<lparr>HealthCheckTimeout := 0\<rparr>) \<noteq> None"
proof -
  have "main_startup valid_config = Continues"
    by (simp add: main_startup_def validateConfig_def map_index_def validAlgorithms_def
        valid_config_def)
  then show ?thesis
    using C8_validateConfig_fails_iff [of valid_config]
      C8_validateConfig_fails_iff [of "valid_config\<lparr>Backends := []\<rparr>"]
      C8_validateConfig_fails_iff [of "valid_config\<lparr>Algorithm := ''random''\<rparr>"]
      C8_validateConfig_fails_iff [of "valid_config\<lparr>HealthCheckInterval := - 1\<rparr>"]
      C8_validateConfig_fails_iff [of "valid_config\<lparr>HealthCheckTimeout := 0\<rparr>"]
    by (simp add: valid_config_def)
qed

text \<open>
  C9. Round-robin and IP-hash selection leave the store of backends as it was, so every
  alive flag, connection count and success or error counter is unchanged, and leave the
  registry as it was; round-robin advances its cursor by one when a backend is alive and
  IP-hash changes nothing at all. Least-connections does change the store: the count of
  the backend it returns is another one afterwards, which is what DecrementConnections
  takes back.
\<close>

theorem C9_selection_leaves_backends_unchanged:
  "(case RoundRobin_SelectBackend rb h request of (res, rb', h') \<Rightarrow>
      h' = h \<and> rb_backends rb' = rb_backends rb
      \<and> rb_current rb' =
          (if aliveBackends h (rb_backends rb) = [] then rb_current rb else rb_current rb + 1))
   \<and> (case IPHash_SelectBackend lib ihb h request of (res, ihb', h') \<Rightarrow> h' = h \<and> ihb' = ihb)
   \<and> (case LeastConnections_SelectBackend lcb h request of (res, lcb', h') \<Rightarrow>
        \<forall>b. res = Some b \<longrightarrow> Connections (h' b) \<noteq> Connections (h b))"
proof -
  have "case LeastConnections_SelectBackend lcb h request of (res, lcb', h') \<Rightarrow>
        \<forall>b. res = Some b \<longrightarrow> Connections (h' b) \<noteq> Connections (h b)"
    using LeastConnections_select_cases [of h lcb request] by auto
  then show ?thesis
    by (auto simp: RoundRobin_SelectBackend_def IPHash_SelectBackend_def Let_def
        split: sum.splits)
qed

theorem C9_selection_witness:
  "RoundRobin_SelectBackend (three_added 0 1 2) fresh_heap plain_request
     = (Inr (Some 1), (three_added 0 1 2)\<lparr>rb_current := 1\<rparr>, fresh_heap)
   \<and> IPHash_SelectBackend eval_lib \<lparr>ihb_backends = [0, 1, 2]\<rparr> fresh_heap plain_request
     = (Inr (Some 1), \<lparr>ihb_backends = [0, 1, 2]\<rparr>, fresh_heap)
   \<and> LeastConnections_SelectBackend \<lparr>lcb_backends = [0, 1, 2]\<rparr> fresh_heap plain_request
     = (Some 0, \<lparr>lcb_backends = [0, 1, 2]\<rparr>, fresh_heap(0 := fresh\<lparr>Connections := 1\<rparr>))"
proof -
  have rr: "fst (RoundRobin_SelectBackend (three_added 0 1 2) fresh_heap plain_request) = Inr (Some 1)"
    by (simp add: three_added_def NewRoundRobinBalancer_def RoundRobin_AddBackend_def
        RoundRobin_SelectBackend_def Let_def fresh_heap_def fresh_def)
  have al: "aliveBackends fresh_heap (rb_backends (three_added 0 1 2)) = [0, 1, 2]"
    by (simp add: three_added_def NewRoundRobinBalancer_def RoundRobin_AddBackend_def
        fresh_heap_def fresh_def)
  have cur: "rb_current (three_added 0 1 2) = 0"
    by (simp add: three_added_def NewRoundRobinBalancer_def RoundRobin_AddBackend_def)
  have ip: "getClientIP eval_lib plain_request = Inr []"
    by (simp add: getClientIP_def Header_Get_def plain_request_def eval_lib_def)
  have ih: "fst (IPHash_SelectBackend eval_lib \<lparr>ihb_backends = [0, 1, 2]\<rparr> fresh_heap plain_request)
       = Inr (Some 1)"
    by (simp add: IPHash_SelectBackend_def Let_def fresh_heap_def fresh_def ip hashIP_eval_lib)
  have lc: "LeastConnections_SelectBackend \<lparr>lcb_backends = [0, 1, 2]\<rparr> fresh_heap plain_request
     = (Some 0, \<lparr>lcb_backends = [0, 1, 2]\<rparr>, fresh_heap(0 := fresh\<lparr>Connections := 1\<rparr>))"
    by (simp add: LeastConnections_SelectBackend_def Let_def fresh_heap_def fresh_def)
  have rr': "RoundRobin_SelectBackend (three_added 0 1 2) fresh_heap plain_request
     = (Inr (Some 1), (three_added 0 1 2)\<lparr>rb_current := 1\<rparr>, fresh_heap)"
    using rr al cur
      C9_selection_leaves_backends_unchanged [where rb = "three_added 0 1 2" and h = fresh_heap
        and request = plain_request and lib = eval_lib
        and ihb = "\<lparr>ihb_backends = [0, 1, 2]\<rparr>" and lcb = "\<lparr>lcb_backends = [0, 1, 2]\<rparr>"]
    by (cases "RoundRobin_SelectBackend (three_added 0 1 2) fresh_heap plain_request") auto
  have ih': "IPHash_SelectBackend eval_lib \<lparr>ihb_backends = [0, 1, 2]\<rparr> fresh_heap plain_request
     = (Inr (Some 1), \<lparr>ihb_backends = [0, 1, 2]\<rparr>, fresh_heap)"
    using ih
      C9_selection_leaves_backends_unchanged [where rb = "three_added 0 1 2" and h = fresh_heap
        and request = plain_request and lib = eval_lib
        and ihb = "\<lparr>ihb_backends = [0, 1, 2]\<rparr>" and lcb = "\<lparr>lcb_backends = [0, 1, 2]\<rparr>"]
    by (cases "IPHash_SelectBackend eval_lib \<lparr>ihb_backends = [0, 1, 2]\<rparr> fresh_heap plain_request") auto
  show ?thesis
    using rr' ih' lc by simp
qed

text \<open>
  C10. For every input, the text hashIP builds from the first four bytes of the MD5
  digest is parsed without an error, so the fallback is not taken, and hashIP returns the
  big-endian unsigned 32-bit reading of those four bytes.
\<close>

theorem C10_hashIP_never_falls_back:
  "strconv_ParseInt16 (fmt_Sprintf_x (map (md5_Sum lib ip) [0..<4]))
     = Inr (uint (BigEndian_Uint32 (md5_Sum lib ip 0) (md5_Sum lib ip 1)
                    (md5_Sum lib ip 2) (md5_Sum lib ip 3)))
   \<and> hashIP lib ip = BigEndian_Uint32 (md5_Sum lib ip 0) (md5_Sum lib ip 1)
                        (md5_Sum lib ip 2) (md5_Sum lib ip 3)"
proof
  let ?d = "md5_Sum lib ip"
  have "strconv_ParseInt16 (fmt_Sprintf_x [?d 0, ?d 1, ?d 2, ?d 3])
      = Inr (int (unat (?d 0) * 2 ^ 24 + unat (?d 1) * 2 ^ 16 + unat (?d 2) * 2 ^ 8 + unat (?d 3)))"
    by (rule strconv_ParseInt16_four_bytes)
  then show "strconv_ParseInt16 (fmt_Sprintf_x (map ?d [0..<4]))
      = Inr (uint (BigEndian_Uint32 (?d 0) (?d 1) (?d 2) (?d 3)))"
    by (simp only: md5_first_four uint_BigEndian_Uint32)
next
  show "hashIP lib ip = BigEndian_Uint32 (md5_Sum lib ip 0) (md5_Sum lib ip 1)
                          (md5_Sum lib ip 2) (md5_Sum lib ip 3)"
    by (rule hashIP_value)
qed

theorem C10_hashIP_witness:
  "hashIP eval_lib [] = 0xd41d8cd9"
  using C10_hashIP_never_falls_back [of eval_lib "[]"]
  by (simp add: eval_lib_def md5_empty_def BigEndian_Uint32_def)

end
